theory Spec2Isabelle
  imports Complex_Main "HOL-Library.Sublist"
begin

section \<open>Python values shared by the servers\<close>

text \<open>
  A Python \<open>str\<close> is a sequence of Unicode code points; \<open>len\<close> counts code points and
  the \<open>re\<close> module classifies code points, so a \<open>str\<close> is a list of code points here.
  Identifiers that only travel through the program (language codes, model names, the
  messages of exceptions) are kept as \<open>string\<close>.
\<close>

type_synonym pystr = "nat list"

text \<open>
  \<open>str.strip()\<close> and the class \<open>\s\<close> of a \<open>str\<close> pattern use the interpreter's
  whitespace test on a code point.
\<close>

definition isspace :: "nat \<Rightarrow> bool" where
  "isspace c \<longleftrightarrow>
     (0x09 \<le> c \<and> c \<le> 0x0D) \<or> (0x1C \<le> c \<and> c \<le> 0x20) \<or> c = 0x85 \<or> c = 0xA0 \<or>
     c = 0x1680 \<or> (0x2000 \<le> c \<and> c \<le> 0x200A) \<or> c = 0x2028 \<or> c = 0x2029 \<or>
     c = 0x202F \<or> c = 0x205F \<or> c = 0x3000"

definition strip :: "pystr \<Rightarrow> pystr" where
  "strip t = rev (dropWhile isspace (rev (dropWhile isspace t)))"

text \<open>
  The classes \<open>\d\<close> and \<open>\w\<close> and the conversion \<open>int\<close> read the interpreter's Unicode
  tables, which are not part of the repository: they are a parameter. \<open>todecimal\<close> gives
  the value of a decimal digit (\<open>None\<close> for every other code point), and
  \<open>isalpha_numeric\<close> is the rest of the alphanumeric test, which the interpreter defines
  as alphabetic, decimal, digit or numeric. \<open>\w\<close> is alphanumeric or the underscore.
\<close>

record ucd =
  todecimal :: "nat \<Rightarrow> nat option"
  isalpha_numeric :: "nat \<Rightarrow> bool"

definition isdecimal :: "ucd \<Rightarrow> nat \<Rightarrow> bool" where
  "isdecimal db c \<longleftrightarrow> todecimal db c \<noteq> None"

definition isword :: "ucd \<Rightarrow> nat \<Rightarrow> bool" where
  "isword db c \<longleftrightarrow> isdecimal db c \<or> isalpha_numeric db c \<or> c = 0x5F"

text \<open>
  What the properties below need of the tables: the ASCII digits have their values, the
  value of a decimal digit is below ten, a decimal digit is no whitespace, the
  lower-case Russian letters are no digits, and the space, the comma, the full stop, the
  exclamation mark and the question mark are no word characters.
\<close>

definition ucd_ok :: "ucd \<Rightarrow> bool" where
  "ucd_ok db \<longleftrightarrow>
     (\<forall>d. d < 10 \<longrightarrow> todecimal db (0x30 + d) = Some d) \<and>
     (\<forall>c d. todecimal db c = Some d \<longrightarrow> d < 10) \<and>
     (\<forall>c. isdecimal db c \<longrightarrow> \<not> isspace c) \<and>
     (\<forall>c. 0x430 \<le> c \<and> c \<le> 0x44F \<longrightarrow> todecimal db c = None) \<and>
     (\<forall>c. c = 0x20 \<or> c = 0x2C \<or> c = 0x2E \<or> c = 0x21 \<or> c = 0x3F \<longrightarrow> \<not> isword db c)"

text \<open>
  The tables on Basic Latin and on the Russian alphabet, for running the functions on
  texts of these characters.
\<close>

definition ascii_russian :: ucd where
  "ascii_russian =
     \<lparr>todecimal = (\<lambda>c. if 0x30 \<le> c \<and> c \<le> 0x39 then Some (c - 0x30) else None),
      isalpha_numeric = (\<lambda>c. (0x41 \<le> c \<and> c \<le> 0x5A) \<or> (0x61 \<le> c \<and> c \<le> 0x7A) \<or>
                            (0x410 \<le> c \<and> c \<le> 0x44F) \<or> c = 0x401 \<or> c = 0x451)\<rparr>"

text \<open>
  The exceptions the servers distinguish: \<open>torch.cuda.OutOfMemoryError\<close>, which the
  handlers catch first, \<open>ValueError\<close> as numpy and \<open>int\<close> raise it, and every other
  \<open>Exception\<close>, each with its message.
\<close>

datatype exn = OutOfMemoryError string | ValueError string | Exception string

section \<open>Text preprocessing\<close>

subsection \<open>String operations\<close>

text \<open>
  \<open>text.replace(old, new)\<close>: the occurrences of \<open>old\<close> are found from left to right
  and do not overlap. With an empty \<open>old\<close>, \<open>new\<close> goes before every character and at
  the end.
\<close>

function replace_scan :: "pystr \<Rightarrow> pystr \<Rightarrow> pystr \<Rightarrow> pystr" where
  "replace_scan old new [] = []"
| "replace_scan old new (c # cs) =
     (if old \<noteq> [] \<and> prefix old (c # cs)
      then new @ replace_scan old new (drop (length old) (c # cs))
      else c # replace_scan old new cs)"
  by pat_completeness auto
termination
  by (relation "measure (\<lambda>(old, new, t). length t)") (auto simp: neq_Nil_conv)

definition replace :: "pystr \<Rightarrow> pystr \<Rightarrow> pystr \<Rightarrow> pystr" where
  "replace old new t =
     (if old = [] then new @ concat (map (\<lambda>c. c # new) t) else replace_scan old new t)"

text \<open>A sequence of \<open>text = text.replace(old, new)\<close> statements, in the order written.\<close>

definition replace_all :: "(pystr \<times> pystr) list \<Rightarrow> pystr \<Rightarrow> pystr" where
  "replace_all table t = foldl (\<lambda>t (old, new). replace old new t) t table"

text \<open>\<open>re.sub(r'\s+', ' ', text)\<close>: every maximal run of whitespace becomes one space.\<close>

function collapse_ws :: "pystr \<Rightarrow> pystr" where
  "collapse_ws [] = []"
| "collapse_ws (c # cs) =
     (if isspace c then 0x20 # collapse_ws (dropWhile isspace cs) else c # collapse_ws cs)"
  by pat_completeness auto
termination
  by (relation "measure length") (auto simp: length_dropWhile_le less_Suc_eq_le)

text \<open>
  \<open>int(m.group())\<close> on a run of decimal digits, and \<open>str(num)\<close> of a natural number.
  \<open>int\<close> raises \<open>ValueError\<close> on a run of more than 4300 digits, the interpreter's
  default limit on the conversion of a \<open>str\<close> to an \<open>int\<close>
  (\<open>sys.get_int_max_str_digits()\<close>); leading zeros count. The message, which also
  names the number of digits, is shortened. The default of \<open>digits_value\<close> is never
  read: the run holds decimal digits only. A number that \<open>int\<close> returned has at most
  4300 digits, so \<open>str\<close> does not raise on it.
\<close>

definition max_str_digits :: nat where
  "max_str_digits = 4300"

definition digits_value :: "ucd \<Rightarrow> pystr \<Rightarrow> nat" where
  "digits_value db ds =
     foldl (\<lambda>acc c. 10 * acc + (case todecimal db c of Some d \<Rightarrow> d | None \<Rightarrow> 0)) 0 ds"

definition too_many_digits :: exn where
  "too_many_digits = ValueError ''Exceeds the limit (4300 digits) for integer string conversion''"

definition int_of :: "ucd \<Rightarrow> pystr \<Rightarrow> exn + nat" where
  "int_of db ds =
     (if length ds > max_str_digits then Inl too_many_digits else Inr (digits_value db ds))"

fun str_of :: "nat \<Rightarrow> pystr" where
  "str_of n = (if n < 10 then [0x30 + n] else str_of (n div 10) @ [0x30 + n mod 10])"

declare str_of.simps [simp del]

text \<open>
  The matches of \<open>r'\b(\d+)\b'\<close> in a text, as \<open>re.sub\<close> finds them: the text is cut
  into the matched runs (\<open>Inl\<close>, what \<open>m.group()\<close> is) and the characters outside
  the matches (\<open>Inr\<close>). The scan goes from left to right; \<open>prev_word\<close> tells whether
  the character before the position is a word character. A digit is a word character,
  so \<open>\b\<close> holds before a digit exactly when the character before is no word
  character (or the text starts), and holds after a run of digits exactly when the run
  is maximal and no word character follows (or the text ends): a shorter run ends
  between two digits, where \<open>\b\<close> fails. After a match the scan continues behind the
  run.
\<close>

function number_matches :: "ucd \<Rightarrow> bool \<Rightarrow> pystr \<Rightarrow> (pystr + nat) list" where
  "number_matches db prev_word [] = []"
| "number_matches db prev_word (c # cs) =
     (let run = takeWhile (isdecimal db) (c # cs);
          rest = dropWhile (isdecimal db) (c # cs)
      in if \<not> prev_word \<and> run \<noteq> [] \<and> (rest = [] \<or> \<not> isword db (hd rest))
         then Inl run # number_matches db True rest
         else Inr c # number_matches db (isword db c) cs)"
  by pat_completeness auto
termination
  by (relation "measure (\<lambda>(db, p, t). length t)")
     (auto simp: length_dropWhile_le less_Suc_eq_le split: if_splits)

text \<open>
  \<open>re.sub(pattern, repl, text)\<close> with a function \<open>repl\<close>: from left to right every
  match is replaced by what \<open>repl\<close> returns for it, and the first exception that
  \<open>repl\<close> raises ends the substitution.
\<close>

fun substitute :: "(pystr \<Rightarrow> exn + pystr) \<Rightarrow> (pystr + nat) list \<Rightarrow> exn + pystr" where
  "substitute repl [] = Inr []"
| "substitute repl (Inl m # ts) =
     (case repl m of
        Inl e \<Rightarrow> Inl e
      | Inr w \<Rightarrow> (case substitute repl ts of Inl e \<Rightarrow> Inl e | Inr r \<Rightarrow> Inr (w @ r)))"
| "substitute repl (Inr c # ts) =
     (case substitute repl ts of Inl e \<Rightarrow> Inl e | Inr r \<Rightarrow> Inr (c # r))"

text \<open>
  \<open>re.sub(r'\b(\d+)\b', lambda m: convert_number_to_words(int(m.group())), text)\<close>, for
  the \<open>convert_number_to_words\<close> of either server.
\<close>

definition sub_numbers :: "ucd \<Rightarrow> (nat \<Rightarrow> pystr) \<Rightarrow> pystr \<Rightarrow> exn + pystr" where
  "sub_numbers db conv t =
     substitute (\<lambda>m. case int_of db m of Inl e \<Rightarrow> Inl e | Inr num \<Rightarrow> Inr (conv num))
       (number_matches db False t)"

subsection \<open>soft\_female\_tts\_server.py and upgraded\_tts\_server.py\<close>

text \<open>
  The words of the numbers, in lower-case Russian letters: \<open>numbers\<close> is the dict of
  \<open>convert_number_to_words\<close> in soft\_female\_tts\_server.py (0 to 20, read with
  \<open>numbers.get(num, str(num))\<close>); upgraded\_tts\_server.py tests \<open>num\<close> against 0 to 10
  and falls back to \<open>str(num)\<close>.
\<close>

definition numbers :: "nat \<rightharpoonup> pystr" where
  "numbers = map_of
     [(0, [0x43D, 0x43E, 0x43B, 0x44C]),
      (1, [0x43E, 0x434, 0x438, 0x43D]),
      (2, [0x434, 0x432, 0x430]),
      (3, [0x442, 0x440, 0x438]),
      (4, [0x447, 0x435, 0x442, 0x44B, 0x440, 0x435]),
      (5, [0x43F, 0x44F, 0x442, 0x44C]),
      (6, [0x448, 0x435, 0x441, 0x442, 0x44C]),
      (7, [0x441, 0x435, 0x43C, 0x44C]),
      (8, [0x432, 0x43E, 0x441, 0x435, 0x43C, 0x44C]),
      (9, [0x434, 0x435, 0x432, 0x44F, 0x442, 0x44C]),
      (10, [0x434, 0x435, 0x441, 0x44F, 0x442, 0x44C]),
      (11, [0x43E, 0x434, 0x438, 0x43D, 0x43D, 0x430, 0x434, 0x446, 0x430, 0x442, 0x44C]),
      (12, [0x434, 0x432, 0x435, 0x43D, 0x430, 0x434, 0x446, 0x430, 0x442, 0x44C]),
      (13, [0x442, 0x440, 0x438, 0x43D, 0x430, 0x434, 0x446, 0x430, 0x442, 0x44C]),
      (14, [0x447, 0x435, 0x442, 0x44B, 0x440, 0x43D, 0x430, 0x434, 0x446, 0x430, 0x442, 0x44C]),
      (15, [0x43F, 0x44F, 0x442, 0x43D, 0x430, 0x434, 0x446, 0x430, 0x442, 0x44C]),
      (16, [0x448, 0x435, 0x441, 0x442, 0x43D, 0x430, 0x434, 0x446, 0x430, 0x442, 0x44C]),
      (17, [0x441, 0x435, 0x43C, 0x43D, 0x430, 0x434, 0x446, 0x430, 0x442, 0x44C]),
      (18, [0x432, 0x43E, 0x441, 0x435, 0x43C, 0x43D, 0x430, 0x434, 0x446, 0x430, 0x442, 0x44C]),
      (19, [0x434, 0x435, 0x432, 0x44F, 0x442, 0x43D, 0x430, 0x434, 0x446, 0x430, 0x442, 0x44C]),
      (20, [0x434, 0x432, 0x430, 0x434, 0x446, 0x430, 0x442, 0x44C])]"

definition convert_number_to_words_soft :: "nat \<Rightarrow> pystr" where
  "convert_number_to_words_soft num = (case numbers num of Some w \<Rightarrow> w | None \<Rightarrow> str_of num)"

definition convert_number_to_words_upgraded :: "nat \<Rightarrow> pystr" where
  "convert_number_to_words_upgraded num =
     (if num = 0 then [0x43D, 0x43E, 0x43B, 0x44C]
      else if num = 1 then [0x43E, 0x434, 0x438, 0x43D]
      else if num = 2 then [0x434, 0x432, 0x430]
      else if num = 3 then [0x442, 0x440, 0x438]
      else if num = 4 then [0x447, 0x435, 0x442, 0x44B, 0x440, 0x435]
      else if num = 5 then [0x43F, 0x44F, 0x442, 0x44C]
      else if num = 6 then [0x448, 0x435, 0x441, 0x442, 0x44C]
      else if num = 7 then [0x441, 0x435, 0x43C, 0x44C]
      else if num = 8 then [0x432, 0x43E, 0x441, 0x435, 0x43C, 0x44C]
      else if num = 9 then [0x434, 0x435, 0x432, 0x44F, 0x442, 0x44C]
      else if num = 10 then [0x434, 0x435, 0x441, 0x44F, 0x442, 0x44C]
      else str_of num)"

text \<open>
  The abbreviations and what they expand to: \<open>abbr_td\<close> is "t.d." (and so on),
  \<open>abbr_tp\<close> "t.p.", \<open>abbr_itd\<close> "i t.d.", \<open>abbr_te\<close> "t.e.", \<open>abbr_dr\<close> "dr." and
  \<open>abbr_g\<close> "g.", in Russian letters; ASCII full stops and spaces.
\<close>

definition abbr_td :: pystr where "abbr_td = [0x442, 0x2E, 0x434, 0x2E]"
definition full_td :: pystr where "full_td = [0x442, 0x430, 0x43A, 0x20, 0x434, 0x430, 0x43B, 0x435, 0x435]"
definition abbr_tp :: pystr where "abbr_tp = [0x442, 0x2E, 0x43F, 0x2E]"
definition full_tp :: pystr where
  "full_tp = [0x442, 0x43E, 0x43C, 0x443, 0x20, 0x43F, 0x43E, 0x434, 0x43E, 0x431, 0x43D, 0x43E, 0x435]"
definition abbr_itd :: pystr where "abbr_itd = [0x438, 0x20, 0x442, 0x2E, 0x434, 0x2E]"
definition full_itd :: pystr where
  "full_itd = [0x438, 0x20, 0x442, 0x430, 0x43A, 0x20, 0x434, 0x430, 0x43B, 0x435, 0x435]"
definition abbr_te :: pystr where "abbr_te = [0x442, 0x2E, 0x435, 0x2E]"
definition full_te :: pystr where "full_te = [0x442, 0x43E, 0x20, 0x435, 0x441, 0x442, 0x44C]"
definition abbr_dr :: pystr where "abbr_dr = [0x434, 0x440, 0x2E]"
definition full_dr :: pystr where "full_dr = [0x434, 0x440, 0x443, 0x433, 0x43E, 0x439]"
definition abbr_g :: pystr where "abbr_g = [0x433, 0x2E]"
definition full_g :: pystr where "full_g = [0x433, 0x43E, 0x434]"

text \<open>
  The replacement tables in the order of the statements: the pauses of
  soft\_female\_tts\_server.py (comma, full stop, exclamation and question mark, each
  followed by a space), and the abbreviations of both servers.
\<close>

definition pauses_soft :: "(pystr \<times> pystr) list" where
  "pauses_soft =
     [([0x2C], [0x2C, 0x20]), ([0x2E], [0x2E, 0x20]), ([0x21], [0x21, 0x20]), ([0x3F], [0x3F, 0x20])]"

definition abbreviations_soft :: "(pystr \<times> pystr) list" where
  "abbreviations_soft =
     [(abbr_td, full_td), (abbr_tp, full_tp), (abbr_itd, full_itd),
      (abbr_te, full_te), (abbr_dr, full_dr), (abbr_g, full_g)]"

definition abbreviations_upgraded :: "(pystr \<times> pystr) list" where
  "abbreviations_upgraded =
     [(abbr_td, full_td), (abbr_tp, full_tp), (abbr_itd, full_itd),
      (abbr_te, full_te), (abbr_dr, full_dr)]"

text \<open>
  \<open>preprocess_russian_text\<close> of both servers: the whitespace step, the pauses (in
  soft\_female\_tts\_server.py only), the abbreviations and the numbers. Only the number
  step can raise.
\<close>

definition preprocess_russian_text_soft :: "ucd \<Rightarrow> pystr \<Rightarrow> exn + pystr" where
  "preprocess_russian_text_soft db t =
     sub_numbers db convert_number_to_words_soft
       (replace_all abbreviations_soft (replace_all pauses_soft (collapse_ws (strip t))))"

definition preprocess_russian_text_upgraded :: "ucd \<Rightarrow> pystr \<Rightarrow> exn + pystr" where
  "preprocess_russian_text_upgraded db t =
     sub_numbers db convert_number_to_words_upgraded
       (replace_all abbreviations_upgraded (collapse_ws (strip t)))"


subsection \<open>local\_tts\_server\_optimized.py\<close>

text \<open>
  \<open>re.sub(r'[^\w\s\.,!?;:-]', '', text)\<close> keeps word characters, whitespace and the
  seven punctuation marks.
\<close>

definition keeps :: "ucd \<Rightarrow> nat \<Rightarrow> bool" where
  "keeps db c \<longleftrightarrow> isword db c \<or> isspace c \<or> c \<in> {0x2E, 0x2C, 0x21, 0x3F, 0x3B, 0x3A, 0x2D}"

text \<open>
  \<open>re.sub(r'([.!?])\s*', r'\1 ', text)\<close> and the same for \<open>[,;:]\<close>: a mark of the class
  and the whitespace behind it become the mark and one space.
\<close>

function add_pause :: "(nat \<Rightarrow> bool) \<Rightarrow> pystr \<Rightarrow> pystr" where
  "add_pause mark [] = []"
| "add_pause mark (c # cs) =
     (if mark c then c # 0x20 # add_pause mark (dropWhile isspace cs)
      else c # add_pause mark cs)"
  by pat_completeness auto
termination
  by (relation "measure (\<lambda>(mark, t). length t)") (auto simp: length_dropWhile_le less_Suc_eq_le)

definition sentence_mark :: "nat \<Rightarrow> bool" where
  "sentence_mark c \<longleftrightarrow> c \<in> {0x2E, 0x21, 0x3F}"

definition clause_mark :: "nat \<Rightarrow> bool" where
  "clause_mark c \<longleftrightarrow> c \<in> {0x2C, 0x3B, 0x3A}"

text \<open>\<open>re.split(r'[.!?]+', text)\<close>: the pieces between the maximal runs of marks.\<close>

function split_sentences :: "pystr \<Rightarrow> pystr list" where
  "split_sentences t =
     (let piece = takeWhile (\<lambda>c. \<not> sentence_mark c) t;
          rest = dropWhile (\<lambda>c. \<not> sentence_mark c) t
      in if rest = [] then [piece] else piece # split_sentences (dropWhile sentence_mark rest))"
  by pat_completeness auto
termination
proof (relation "measure length")
  show "wf (measure length)" by simp
next
  fix t :: pystr and piece rest
  assume rest: "rest = dropWhile (\<lambda>c. \<not> sentence_mark c) t" and ne: "rest \<noteq> []"
  from ne obtain r rs where r: "rest = r # rs" by (cases rest) auto
  with rest have "sentence_mark r" by (metis hd_dropWhile list.sel(1) ne)
  with r have "length (dropWhile sentence_mark rest) \<le> length rs"
    by (simp add: length_dropWhile_le)
  also have "length rs < length rest" using r by simp
  also have "length rest \<le> length t" using rest by (simp add: length_dropWhile_le)
  finally show "(dropWhile sentence_mark rest, t) \<in> measure length" by simp
qed

declare split_sentences.simps [simp del]

text \<open>\<open>sep.join(parts)\<close>.\<close>

fun join :: "pystr \<Rightarrow> pystr list \<Rightarrow> pystr" where
  "join sep [] = []"
| "join sep [p] = p"
| "join sep (p # q # ps) = p @ sep @ join sep (q # ps)"

text \<open>\<open>s.rsplit(' ', 1)[0]\<close>: what is before the last space, or all of \<open>s\<close> without one.\<close>

definition rsplit_head :: "pystr \<Rightarrow> pystr" where
  "rsplit_head s =
     (if 0x20 \<in> set s then rev (tl (dropWhile (\<lambda>c. c \<noteq> 0x20) (rev s))) else s)"

definition max_length :: nat where
  "max_length = 500"

definition preprocess_russian_text_optimized :: "ucd \<Rightarrow> pystr \<Rightarrow> pystr" where
  "preprocess_russian_text_optimized db t =
     (let t1 = add_pause clause_mark (add_pause sentence_mark (filter (keeps db) t)) in
      if length t1 > max_length then
        let sentences = split_sentences t1;
            t2 = join [0x2E, 0x20] (take 3 sentences)
        in if length t2 > max_length then rsplit_head (take max_length t2) else t2
      else t1)"

section \<open>Audio post-processing (soft\_female\_tts\_server.py)\<close>

subsection \<open>Samples\<close>

text \<open>
  A sample is a numpy float. Rounding is left out: a finite sample is a real number and
  the operations on finite samples are exact. What is kept is what the claims depend on:
  a division by zero raises nothing and yields an infinity or, for zero by zero, NaN;
  NaN spreads through arithmetic and every comparison with NaN is false. A zero divisor
  is the positive zero, as it is for a maximum of absolute values.
\<close>

datatype fl = Num real | PInf | MInf | NaN

fun fneg :: "fl \<Rightarrow> fl" where
  "fneg (Num a) = Num (- a)"
| "fneg PInf = MInf"
| "fneg MInf = PInf"
| "fneg NaN = NaN"

fun fabs :: "fl \<Rightarrow> fl" where
  "fabs (Num a) = Num \<bar>a\<bar>"
| "fabs PInf = PInf"
| "fabs MInf = PInf"
| "fabs NaN = NaN"

fun fsign :: "fl \<Rightarrow> fl" where
  "fsign (Num a) = Num (sgn a)"
| "fsign PInf = Num 1"
| "fsign MInf = Num (- 1)"
| "fsign NaN = NaN"

fun ftanh :: "fl \<Rightarrow> fl" where
  "ftanh (Num a) = Num (tanh a)"
| "ftanh PInf = Num 1"
| "ftanh MInf = Num (- 1)"
| "ftanh NaN = NaN"

fun fadd :: "fl \<Rightarrow> fl \<Rightarrow> fl" where
  "fadd (Num a) (Num b) = Num (a + b)"
| "fadd NaN y = NaN"
| "fadd x NaN = NaN"
| "fadd PInf MInf = NaN"
| "fadd MInf PInf = NaN"
| "fadd PInf y = PInf"
| "fadd MInf y = MInf"
| "fadd x PInf = PInf"
| "fadd x MInf = MInf"

definition fsub :: "fl \<Rightarrow> fl \<Rightarrow> fl" where
  "fsub x y = fadd x (fneg y)"

fun fmul :: "fl \<Rightarrow> fl \<Rightarrow> fl" where
  "fmul (Num a) (Num b) = Num (a * b)"
| "fmul NaN y = NaN"
| "fmul x NaN = NaN"
| "fmul (Num a) PInf = (if a = 0 then NaN else if 0 < a then PInf else MInf)"
| "fmul (Num a) MInf = (if a = 0 then NaN else if 0 < a then MInf else PInf)"
| "fmul PInf (Num b) = (if b = 0 then NaN else if 0 < b then PInf else MInf)"
| "fmul MInf (Num b) = (if b = 0 then NaN else if 0 < b then MInf else PInf)"
| "fmul PInf PInf = PInf"
| "fmul PInf MInf = MInf"
| "fmul MInf PInf = MInf"
| "fmul MInf MInf = PInf"

fun fdiv :: "fl \<Rightarrow> fl \<Rightarrow> fl" where
  "fdiv (Num a) (Num b) =
     (if b \<noteq> 0 then Num (a / b) else if a = 0 then NaN else if 0 < a then PInf else MInf)"
| "fdiv NaN y = NaN"
| "fdiv x NaN = NaN"
| "fdiv (Num a) PInf = Num 0"
| "fdiv (Num a) MInf = Num 0"
| "fdiv PInf (Num b) = (if 0 \<le> b then PInf else MInf)"
| "fdiv MInf (Num b) = (if 0 \<le> b then MInf else PInf)"
| "fdiv PInf PInf = NaN"
| "fdiv PInf MInf = NaN"
| "fdiv MInf PInf = NaN"
| "fdiv MInf MInf = NaN"

fun fgt :: "fl \<Rightarrow> fl \<Rightarrow> bool" where
  "fgt (Num a) (Num b) = (a > b)"
| "fgt NaN y = False"
| "fgt x NaN = False"
| "fgt PInf PInf = False"
| "fgt PInf y = True"
| "fgt x PInf = False"
| "fgt MInf y = False"
| "fgt x MInf = True"

definition fle :: "fl \<Rightarrow> fl \<Rightarrow> bool" where
  "fle x y \<longleftrightarrow> x \<noteq> NaN \<and> y \<noteq> NaN \<and> \<not> fgt x y"

fun fmax :: "fl \<Rightarrow> fl \<Rightarrow> fl" where
  "fmax NaN y = NaN"
| "fmax x NaN = NaN"
| "fmax x y = (if fgt y x then y else x)"

text \<open>\<open>np.max\<close> raises on an empty array and returns NaN when a sample is NaN.\<close>

fun np_max :: "fl list \<Rightarrow> exn + fl" where
  "np_max [] = Inl (ValueError ''zero-size array to reduction operation maximum which has no identity'')"
| "np_max (x # xs) = Inr (fold fmax xs x)"

subsection \<open>The stages of \<open>enhance_voice_quality\<close>\<close>

definition cutoff :: real where "cutoff = 8000"
definition threshold :: real where "threshold = 0.6"
definition ratio :: real where "ratio = 4.0"

text \<open>
  \<open>new_length = int(len(audio) / pitch_factor)\<close> is computed in float64, and here the
  rounding decides the integer. \<open>pitch_factor = 1.08\<close> is the float64 nearest to 1.08,
  which is 607985949695017 / 2^49, a little more than 1.08. The length is a float64
  itself (an array has fewer than 2^53 samples). The division yields the exact quotient
  rounded to 53 significant bits, ties to the even neighbour, and \<open>int\<close> truncates.
  The exact quotient \<open>a / b\<close> is 0 or at least 1/2; with \<open>L\<close> the number of bits of
  its integer part, its 53 significant bits are the integer nearest to
  \<open>a * 2^s / b\<close> for \<open>s = 53 - L\<close>, and the float64 quotient is that integer over
  \<open>2^s\<close>.
\<close>

definition pitch_factor :: real where "pitch_factor = 607985949695017 / 2 ^ 49"

definition round_half_even :: "nat \<Rightarrow> nat \<Rightarrow> nat" where
  "round_half_even a b =
     (let f = a div b; r = a mod b
      in if 2 * r < b \<or> (2 * r = b \<and> even f) then f else f + 1)"

fun bit_length :: "nat \<Rightarrow> nat" where
  "bit_length n = (if n = 0 then 0 else Suc (bit_length (n div 2)))"

declare bit_length.simps [simp del]

definition new_length :: "nat \<Rightarrow> nat" where
  "new_length n =
     (let a = n * 2 ^ 49; b = 607985949695017; s = 53 - bit_length (a div b)
      in round_half_even (a * 2 ^ s) b div 2 ^ s)"

text \<open>
  The static compression, \<open>np.where(np.abs(x) > threshold, np.sign(x) * (threshold +
  (np.abs(x) - threshold) / ratio), x)\<close>, sample by sample.
\<close>

definition compress :: "fl \<Rightarrow> fl" where
  "compress x =
     (if fgt (fabs x) (Num threshold)
      then fmul (fsign x) (fadd (Num threshold) (fdiv (fsub (fabs x) (Num threshold)) (Num ratio)))
      else x)"

text \<open>
  The reverb: \<open>reverb[delay_samples:] += compressed[:-delay_samples] * 0.15\<close> when the
  signal is longer than the delay. With a delay of zero samples the slice
  \<open>compressed[:-0]\<close> is empty and the addition raises.
\<close>

definition delay_samples :: "real \<Rightarrow> nat" where
  "delay_samples sample_rate = nat \<lfloor>0.02 * sample_rate\<rfloor>"

definition add_reverb :: "nat \<Rightarrow> fl list \<Rightarrow> exn + fl list" where
  "add_reverb d compressed =
     (if length compressed > d then
        if d = 0 then Inl (ValueError ''operands could not be broadcast together'')
        else Inr (take d compressed @
                  map2 (\<lambda>r c. fadd r (fmul c (Num 0.15)))
                    (drop d compressed) (take (length compressed - d) compressed))
      else Inr compressed)"

text \<open>
  \<open>x / np.max(np.abs(x)) * target\<close>: the peak normalisation of \<open>enhance_voice_quality\<close>
  (target 0.95) and of \<open>synthesize\<close> (target 0.9). The division is not guarded.
\<close>

definition peak_scale :: "real \<Rightarrow> fl list \<Rightarrow> exn + fl list" where
  "peak_scale target xs =
     (case np_max (map fabs xs) of
        Inl e \<Rightarrow> Inl e
      | Inr m \<Rightarrow> Inr (map (\<lambda>x. fmul (fdiv x m) (Num target)) xs))"

text \<open>\<open>np.tanh(x * 1.2) * 0.8\<close>.\<close>

definition saturate :: "fl \<Rightarrow> fl" where
  "saturate x = fmul (ftanh (fmul x (Num 1.2))) (Num 0.8)"

text \<open>
  \<open>scipy.signal.resample\<close> and the Butterworth filter (\<open>scipy.signal.butter\<close> of order
  6 with \<open>sosfilt\<close>) are library code: they are parameters, given the signal and the
  number of samples, respectively the normalised cutoff, and they return a signal or
  raise. A signal is the list of the samples of one channel; the conversion to
  \<open>float32\<close> changes nothing here, and the sample rate is positive (\<open>synthesize\<close>
  passes 22050).
\<close>

definition enhance_voice_quality ::
  "(fl list \<Rightarrow> nat \<Rightarrow> exn + fl list) \<Rightarrow> (real \<Rightarrow> fl list \<Rightarrow> exn + fl list) \<Rightarrow>
   fl list \<Rightarrow> real \<Rightarrow> exn + fl list" where
  "enhance_voice_quality resample lowpass audio sample_rate =
     (case resample audio (new_length (length audio)) of
        Inl e \<Rightarrow> Inl e
      | Inr audio_pitched \<Rightarrow>
     (case lowpass (cutoff / (sample_rate / 2)) audio_pitched of
        Inl e \<Rightarrow> Inl e
      | Inr audio_filtered \<Rightarrow>
     (case add_reverb (delay_samples sample_rate) (map compress audio_filtered) of
        Inl e \<Rightarrow> Inl e
      | Inr reverb \<Rightarrow>
     (case peak_scale 0.95 reverb of
        Inl e \<Rightarrow> Inl e
      | Inr normalized \<Rightarrow> Inr (map saturate normalized)))))"

text \<open>
  \<open>synthesize\<close> after the model call: the enhancement at 22050 Hz and the second peak
  normalisation, \<open>audio / np.max(np.abs(audio)) * 0.9\<close>.
\<close>

definition synthesize_audio ::
  "(fl list \<Rightarrow> nat \<Rightarrow> exn + fl list) \<Rightarrow> (real \<Rightarrow> fl list \<Rightarrow> exn + fl list) \<Rightarrow>
   fl list \<Rightarrow> exn + fl list" where
  "synthesize_audio resample lowpass waveform =
     (case enhance_voice_quality resample lowpass waveform 22050 of
        Inl e \<Rightarrow> Inl e
      | Inr audio \<Rightarrow> peak_scale 0.9 audio)"

text \<open>
  Two library stand-ins for running the chain on concrete signals: a resampler that
  holds the nearest earlier sample and a filter that passes the signal through. Like the
  library's linear operations they map silence to silence.
\<close>

definition resample_hold :: "fl list \<Rightarrow> nat \<Rightarrow> exn + fl list" where
  "resample_hold x num =
     (if num = 0 then Inl (ValueError ''invalid number of data points'')
      else Inr (map (\<lambda>i. x ! (i * length x div num)) [0..<num]))"

definition lowpass_bypass :: "real \<Rightarrow> fl list \<Rightarrow> exn + fl list" where
  "lowpass_bypass wn x =
     (if 0 < wn \<and> wn < 1 then Inr x
      else Inl (ValueError ''Digital filter critical frequencies must be 0 < Wn < 1''))"

section \<open>The memory-managed model call (local\_stt\_server\_optimized.py, local\_tts\_server\_optimized.py)\<close>

text \<open>
  The effects of a request on the process: each call of the model collaborator (the
  transcription with the loaded model's name and the language it was given, the speech
  generation), \<open>torch.cuda.empty_cache()\<close> and \<open>gc.collect()\<close>. Log lines are not part
  of the model.
\<close>

datatype event = Transcribe string string | GenerateSpeech | EmptyCache | GcCollect

record guard_state =
  model_name :: string
  calls :: nat
  trace :: "event list"

definition emit :: "event list \<Rightarrow> guard_state \<Rightarrow> guard_state" where
  "emit es s = s\<lparr>trace := trace s @ es\<rparr>"

text \<open>
  Module start of local\_stt\_server\_optimized.py. With CUDA the cache is emptied
  before and after loading. \<open>whisper.load_model("base")\<close> is tried first; on
  \<open>OutOfMemoryError\<close> only, the cache is emptied and \<open>whisper.load_model("tiny")\<close>
  is loaded instead; any other exception, and an exception of the second load, ends the
  start. The loader is the collaborator: \<open>load name\<close> is \<open>None\<close> when loading
  succeeds.
\<close>

definition load_model :: "bool \<Rightarrow> (string \<Rightarrow> exn option) \<Rightarrow> exn + guard_state" where
  "load_model cuda load =
     (let housekeeping = (if cuda then [EmptyCache] else []) in
      case load ''base'' of
        None \<Rightarrow> Inr \<lparr>model_name = ''base'', calls = 0, trace = housekeeping @ housekeeping\<rparr>
      | Some (OutOfMemoryError e) \<Rightarrow>
          (case load ''tiny'' of
             None \<Rightarrow> Inr \<lparr>model_name = ''tiny'', calls = 0,
                          trace = housekeeping @ [EmptyCache] @ housekeeping\<rparr>
           | Some e' \<Rightarrow> Inl e')
      | Some e \<Rightarrow> Inl e)"

text \<open>
  \<open>gpu_memory_manager\<close>: \<open>try: yield finally: if cuda: empty_cache(); gc.collect()\<close>.
  The body of the \<open>with\<close> block is a state transformer whose result is a value or the
  exception that leaves the block; \<open>cuda\<close> is \<open>torch.cuda.is_available()\<close>.
\<close>

definition sweep :: "bool \<Rightarrow> event list" where
  "sweep cuda = (if cuda then [EmptyCache] else []) @ [GcCollect]"

definition gpu_memory_manager ::
  "bool \<Rightarrow> (guard_state \<Rightarrow> (exn + 'a) \<times> guard_state) \<Rightarrow> guard_state \<Rightarrow> (exn + 'a) \<times> guard_state" where
  "gpu_memory_manager cuda body s =
     (case body s of (r, s') \<Rightarrow> (r, emit (sweep cuda) s'))"

text \<open>
  \<open>transcribe_audio\<close>. The model collaborator answers its \<open>k\<close>-th call of the process,
  made with a language, with \<open>model k language\<close>: the transcript, or the exception it
  raises. On \<open>OutOfMemoryError\<close> the handler empties the cache, collects and raises an
  \<open>Exception\<close> with a fixed message; any other exception is raised again.
\<close>

definition oom_message_stt :: string where
  "oom_message_stt =
     ''GPU memory exhausted during transcription. Try shorter audio or restart the service.''"

definition transcribe_body ::
  "(nat \<Rightarrow> string \<Rightarrow> exn + pystr) \<Rightarrow> string \<Rightarrow> guard_state \<Rightarrow> (exn + pystr) \<times> guard_state" where
  "transcribe_body model language s =
     (let s1 = emit [Transcribe (model_name s) language] (s\<lparr>calls := calls s + 1\<rparr>) in
      case model (calls s) language of
        Inr result_text \<Rightarrow> (Inr (strip result_text), s1)
      | Inl (OutOfMemoryError e) \<Rightarrow>
          (Inl (Exception oom_message_stt), emit [EmptyCache, GcCollect] s1)
      | Inl e \<Rightarrow> (Inl e, s1))"

definition transcribe_audio ::
  "bool \<Rightarrow> (nat \<Rightarrow> string \<Rightarrow> exn + pystr) \<Rightarrow> string \<Rightarrow> guard_state \<Rightarrow>
   (exn + pystr) \<times> guard_state" where
  "transcribe_audio cuda model language s =
     gpu_memory_manager cuda (transcribe_body model language) s"

text \<open>
  \<open>generate_speech\<close> of local\_tts\_server\_optimized.py: the text is preprocessed inside
  the \<open>with\<close> block and the model is called once with it.
\<close>

definition oom_message_tts :: string where
  "oom_message_tts = ''GPU memory exhausted. Try shorter text or restart the service.''"

definition generate_body ::
  "ucd \<Rightarrow> (nat \<Rightarrow> pystr \<Rightarrow> exn + fl list) \<Rightarrow> pystr \<Rightarrow> guard_state \<Rightarrow>
   (exn + fl list) \<times> guard_state" where
  "generate_body db model t s =
     (let s1 = emit [GenerateSpeech] (s\<lparr>calls := calls s + 1\<rparr>) in
      case model (calls s) (preprocess_russian_text_optimized db t) of
        Inr speech \<Rightarrow> (Inr speech, s1)
      | Inl (OutOfMemoryError e) \<Rightarrow>
          (Inl (Exception oom_message_tts), emit [EmptyCache, GcCollect] s1)
      | Inl e \<Rightarrow> (Inl e, s1))"

definition generate_speech ::
  "bool \<Rightarrow> ucd \<Rightarrow> (nat \<Rightarrow> pystr \<Rightarrow> exn + fl list) \<Rightarrow> pystr \<Rightarrow> guard_state \<Rightarrow>
   (exn + fl list) \<times> guard_state" where
  "generate_speech cuda db model t s =
     gpu_memory_manager cuda (generate_body db model t) s"

text \<open>The number of model calls a trace records.\<close>

fun is_model_call :: "event \<Rightarrow> bool" where
  "is_model_call (Transcribe m l) = True"
| "is_model_call GenerateSpeech = True"
| "is_model_call EmptyCache = False"
| "is_model_call GcCollect = False"

definition attempts :: "event list \<Rightarrow> nat" where
  "attempts es = length (filter is_model_call es)"

section \<open>The transcription endpoint of local\_stt\_server.py\<close>

text \<open>
  \<open>language_map\<close>, a dict whose values are a model language name or \<open>None\<close>; the
  hint is \<open>request.form.get('language', None)\<close>, and a hint that is a key of the dict
  is replaced by its value.
\<close>

definition language_map :: "string \<rightharpoonup> string option" where
  "language_map =
     [''en'' \<mapsto> Some ''english'', ''ru'' \<mapsto> Some ''russian'',
      ''uk'' \<mapsto> Some ''ukrainian'', ''auto'' \<mapsto> None]"

definition map_language :: "string option \<Rightarrow> string option" where
  "map_language language =
     (case language of
        None \<Rightarrow> None
      | Some l \<Rightarrow> (case language_map l of Some v \<Rightarrow> v | None \<Rightarrow> Some l))"

text \<open>
  Keyword arguments of \<open>model.transcribe\<close> that the endpoint passes; the prompt and
  the decoding thresholds, all constants, are left out.
\<close>

record whisper_kwargs =
  kw_language :: "string option"
  kw_task :: string
  kw_word_timestamps :: bool
  kw_condition_on_previous_text :: bool

record stt_request =
  has_file :: bool
  form_language :: "string option"

datatype stt_response = Json_error nat string | Json_text pystr string

text \<open>
  The endpoint computes the mapped hint into the local variable \<open>language\<close> and then
  calls the model with the literal \<open>language="russian"\<close>. The model answers with the
  message of an exception or with the transcript and the language it reports.
\<close>

definition transcribe_kwargs :: "stt_request \<Rightarrow> whisper_kwargs" where
  "transcribe_kwargs req =
     (let language = map_language (form_language req) in
      \<lparr>kw_language = Some ''russian'', kw_task = ''transcribe'',
       kw_word_timestamps = True, kw_condition_on_previous_text = False\<rparr>)"

definition transcribe ::
  "(whisper_kwargs \<Rightarrow> string + pystr \<times> string) \<Rightarrow> stt_request \<Rightarrow> stt_response" where
  "transcribe model req =
     (if \<not> has_file req then Json_error 400 ''No audio file provided''
      else case model (transcribe_kwargs req) of
             Inl msg \<Rightarrow> Json_error 500 msg
           | Inr (result_text, result_language) \<Rightarrow> Json_text (strip result_text) result_language)"

section \<open>Concrete collaborators and notions for the properties\<close>

text \<open>
  The state after a start with CUDA that loaded the base model, and a transcription
  model that reports exhausted accelerator memory on its first call and succeeds
  afterwards.
\<close>

definition base_state :: guard_state where
  "base_state = \<lparr>model_name = ''base'', calls = 0, trace = [EmptyCache, EmptyCache]\<rparr>"

definition oom_once :: "nat \<Rightarrow> string \<Rightarrow> exn + pystr" where
  "oom_once k language =
     (if k = 0 then Inl (OutOfMemoryError ''CUDA out of memory'') else Inr [0x6F, 0x6B])"

text \<open>
  A text in which every whitespace character is a single space with a character that is
  no whitespace behind it: what the first step, \<open>re.sub(r'\s+', ' ', text.strip())\<close>,
  leaves of the whitespace inside a text.
\<close>

fun spaced :: "pystr \<Rightarrow> bool" where
  "spaced [] = True"
| "spaced (c # cs) =
     (if isspace c then c = 0x20 \<and> cs \<noteq> [] \<and> \<not> isspace (hd cs) \<and> spaced cs else spaced cs)"

text \<open>
  What the number step returns when no conversion raises: the matched runs replaced by
  the converted values, the other characters kept. \<open>prev_word\<close> is as in
  \<open>number_matches\<close>.
\<close>

definition scan_numbers :: "ucd \<Rightarrow> (nat \<Rightarrow> pystr) \<Rightarrow> bool \<Rightarrow> pystr \<Rightarrow> pystr" where
  "scan_numbers db conv prev_word t =
     concat (map (case_sum (\<lambda>m. conv (digits_value db m)) (\<lambda>c. [c]))
       (number_matches db prev_word t))"

text \<open>
  The marks behind which soft\_female\_tts\_server.py puts a space, the text with a space
  put behind every mark, and the texts in which every mark is followed by a space or
  ends the text.
\<close>

definition pause_mark :: "nat \<Rightarrow> bool" where
  "pause_mark c \<longleftrightarrow> c = 0x2C \<or> c = 0x2E \<or> c = 0x21 \<or> c = 0x3F"

fun with_pauses :: "pystr \<Rightarrow> pystr" where
  "with_pauses [] = []"
| "with_pauses (c # cs) =
     (if pause_mark c then c # 0x20 # with_pauses cs else c # with_pauses cs)"

fun paused :: "pystr \<Rightarrow> bool" where
  "paused [] = True"
| "paused (c # cs) = ((pause_mark c \<longrightarrow> cs = [] \<or> hd cs = 0x20) \<and> paused cs)"

section \<open>The memory-managed call: properties\<close>

lemma trace_emit: "trace (emit es s) = trace s @ es"
  by (simp add: emit_def)

lemma calls_emit: "calls (emit es s) = calls s"
  by (simp add: emit_def)

lemma model_name_emit: "model_name (emit es s) = model_name s"
  by (simp add: emit_def)

lemma attempts_append: "attempts (xs @ ys) = attempts xs + attempts ys"
  by (simp add: attempts_def)

lemma attempts_sweep: "attempts (sweep cuda) = 0"
  by (simp add: attempts_def sweep_def)

lemma gpu_memory_manager_fst:
  "fst (gpu_memory_manager cuda body s) = fst (body s)"
  by (simp add: gpu_memory_manager_def split: prod.splits)

lemma gpu_memory_manager_snd:
  "snd (gpu_memory_manager cuda body s) = emit (sweep cuda) (snd (body s))"
  by (simp add: gpu_memory_manager_def split: prod.splits)

lemma transcribe_body_trace:
  "\<exists>h. trace (snd (transcribe_body model language s)) =
         trace s @ Transcribe (model_name s) language # h"
  by (simp add: transcribe_body_def Let_def trace_emit split: sum.splits exn.splits)

lemma generate_body_trace:
  "\<exists>h. trace (snd (generate_body db model t s)) = trace s @ GenerateSpeech # h"
  by (simp add: generate_body_def Let_def trace_emit split: sum.splits exn.splits)

lemma transcribe_body_oom:
  assumes "model (calls s) language = Inl (OutOfMemoryError e)"
  shows "transcribe_body model language s =
           (Inl (Exception oom_message_stt),
            emit [EmptyCache, GcCollect]
              (emit [Transcribe (model_name s) language] (s\<lparr>calls := calls s + 1\<rparr>)))"
  using assms by (simp add: transcribe_body_def Let_def)

text \<open>
  C9. The housekeeping sweep runs on every path of a memory-managed call, before the
  result is handed back: whatever the block returns or raises is passed on unchanged, and
  the effects of the call end with the sweep, \<open>gc.collect()\<close> preceded by
  \<open>empty_cache()\<close> when CUDA is available. For \<open>transcribe_audio\<close> and
  \<open>generate_speech\<close> the sweep comes after the model call and after whatever the
  exception handler did.
\<close>

theorem housekeeping_sweep_unconditional:
  fixes body :: "guard_state \<Rightarrow> (exn + 'a) \<times> guard_state"
  shows "fst (gpu_memory_manager cuda body s) = fst (body s) \<and>
         trace (snd (gpu_memory_manager cuda body s)) = trace (snd (body s)) @ sweep cuda \<and>
         (\<exists>h. trace (snd (transcribe_audio cuda model language s)) =
                trace s @ Transcribe (model_name s) language # h @ sweep cuda) \<and>
         (\<exists>h. trace (snd (generate_speech cuda db tts_model t s)) =
                trace s @ GenerateSpeech # h @ sweep cuda) \<and>
         sweep cuda = (if cuda then [EmptyCache, GcCollect] else [GcCollect])"
proof -
  obtain h where h: "trace (snd (transcribe_body model language s)) =
      trace s @ Transcribe (model_name s) language # h"
    using transcribe_body_trace by blast
  obtain g where g: "trace (snd (generate_body db tts_model t s)) = trace s @ GenerateSpeech # g"
    using generate_body_trace by blast
  have 1: "trace (snd (transcribe_audio cuda model language s)) =
      trace s @ Transcribe (model_name s) language # h @ sweep cuda"
    by (simp add: transcribe_audio_def gpu_memory_manager_snd trace_emit h)
  have 2: "trace (snd (generate_speech cuda db tts_model t s)) =
      trace s @ GenerateSpeech # g @ sweep cuda"
    by (simp add: generate_speech_def gpu_memory_manager_snd trace_emit g)
  show ?thesis
    using 1 2 by (simp add: gpu_memory_manager_fst gpu_memory_manager_snd trace_emit sweep_def)
qed

text \<open>The sweep after a transcription whose model call ran out of memory.\<close>

theorem housekeeping_sweep_unconditional_witness:
  "fst (gpu_memory_manager True (transcribe_body oom_once ''ru'') base_state) =
     Inl (Exception oom_message_stt) \<and>
   trace (snd (gpu_memory_manager True (transcribe_body oom_once ''ru'') base_state)) =
     [EmptyCache, EmptyCache, Transcribe ''base'' ''ru'', EmptyCache, GcCollect,
      EmptyCache, GcCollect]"
  using housekeeping_sweep_unconditional
    [of True "transcribe_body oom_once ''ru''" base_state oom_once "''ru''" ascii_russian
        "\<lambda>k t. Inr []" "[]"]
  by (simp add: transcribe_body_def oom_once_def base_state_def Let_def emit_def)

text \<open>
  C2, as the code has it. When the model reports exhausted memory, \<open>transcribe_audio\<close>
  empties the cache, collects, runs the sweep and raises the memory-exhausted exception
  after exactly one model call; it never calls the model again and never changes the
  loaded model. The fall back from the base model to the tiny one exists at module start
  only: when loading the base model runs out of memory, the tiny model is loaded.
\<close>

theorem oom_single_attempt_no_retry:
  "(model (calls s) language = Inl (OutOfMemoryError e) \<longrightarrow>
      fst (transcribe_audio cuda model language s) = Inl (Exception oom_message_stt) \<and>
      snd (transcribe_audio cuda model language s) =
        s\<lparr>calls := calls s + 1,
          trace := trace s @ [Transcribe (model_name s) language, EmptyCache, GcCollect] @ sweep cuda\<rparr> \<and>
      attempts (trace (snd (transcribe_audio cuda model language s))) = attempts (trace s) + 1 \<and>
      model_name (snd (transcribe_audio cuda model language s)) = model_name s) \<and>
   (load ''base'' = Some (OutOfMemoryError e') \<and> load ''tiny'' = None \<longrightarrow>
      load_model True load =
        Inr \<lparr>model_name = ''tiny'', calls = 0, trace = [EmptyCache, EmptyCache, EmptyCache]\<rparr>)"
proof (intro conjI impI)
  assume oom: "model (calls s) language = Inl (OutOfMemoryError e)"
  show "fst (transcribe_audio cuda model language s) = Inl (Exception oom_message_stt)"
    by (simp add: transcribe_audio_def gpu_memory_manager_fst transcribe_body_oom [of model s language e] oom)
  show snd: "snd (transcribe_audio cuda model language s) =
        s\<lparr>calls := calls s + 1,
          trace := trace s @ [Transcribe (model_name s) language, EmptyCache, GcCollect] @ sweep cuda\<rparr>"
    by (simp add: transcribe_audio_def gpu_memory_manager_snd transcribe_body_oom [of model s language e] oom emit_def)
  show "attempts (trace (snd (transcribe_audio cuda model language s))) = attempts (trace s) + 1"
    by (simp add: snd attempts_def sweep_def)
  show "model_name (snd (transcribe_audio cuda model language s)) = model_name s"
    by (simp add: snd)
next
  assume "load ''base'' = Some (OutOfMemoryError e') \<and> load ''tiny'' = None"
  then show "load_model True load =
      Inr \<lparr>model_name = ''tiny'', calls = 0, trace = [EmptyCache, EmptyCache, EmptyCache]\<rparr>"
    by (simp add: load_model_def)
qed

text \<open>Both parts at the model that is out of memory once.\<close>

theorem oom_single_attempt_no_retry_witness:
  "oom_once (calls base_state) ''ru'' = Inl (OutOfMemoryError ''CUDA out of memory'') \<and>
   fst (transcribe_audio True oom_once ''ru'' base_state) = Inl (Exception oom_message_stt) \<and>
   attempts (trace (snd (transcribe_audio True oom_once ''ru'' base_state))) = 1 \<and>
   load_model True
     (\<lambda>name. if name = ''base'' then Some (OutOfMemoryError ''CUDA out of memory'') else None) =
     Inr \<lparr>model_name = ''tiny'', calls = 0, trace = [EmptyCache, EmptyCache, EmptyCache]\<rparr>"
  using oom_single_attempt_no_retry
    [of oom_once base_state "''ru''" "''CUDA out of memory''" True
        "\<lambda>name. if name = ''base'' then Some (OutOfMemoryError ''CUDA out of memory'') else None"
        "''CUDA out of memory''"]
  by (simp add: oom_once_def base_state_def attempts_def sweep_def load_model_def)

text \<open>
  C2 as stated fails: the base model is loaded (so the tiny model is there to fall back
  to), the first call runs out of memory and a second call would succeed, yet the
  request ends with the exception after one call and the base model stays loaded.
\<close>

theorem retry_with_fallback_counterexample:
  "load_model True (\<lambda>name. None) = Inr base_state \<and>
   oom_once 0 ''ru'' = Inl (OutOfMemoryError ''CUDA out of memory'') \<and>
   oom_once 1 ''ru'' = Inr [0x6F, 0x6B] \<and>
   fst (transcribe_audio True oom_once ''ru'' base_state) = Inl (Exception oom_message_stt) \<and>
   attempts (trace (snd (transcribe_audio True oom_once ''ru'' base_state))) = 1 \<and>
   model_name (snd (transcribe_audio True oom_once ''ru'' base_state)) = ''base''"
  by (simp add: load_model_def base_state_def oom_once_def transcribe_audio_def
      gpu_memory_manager_def transcribe_body_def Let_def emit_def attempts_def sweep_def)

section \<open>The transcription endpoint: properties\<close>

lemma map_language_recognized:
  "map_language (Some ''en'') = Some ''english'' \<and>
   map_language (Some ''ru'') = Some ''russian'' \<and>
   map_language (Some ''uk'') = Some ''ukrainian'' \<and>
   map_language (Some ''auto'') = None \<and> map_language None = None"
  by (simp add: map_language_def language_map_def)

lemma map_language_unrecognized:
  "l \<notin> {''en'', ''ru'', ''uk'', ''auto''} \<Longrightarrow> map_language (Some l) = Some l"
  by (simp add: map_language_def language_map_def)

text \<open>
  C4. The hint "auto" is mapped to \<open>None\<close> in the local variable, but the model call
  does not read the variable: for the hint "auto", as for "en", the model is given the
  language "russian".
\<close>

theorem auto_hint_reaches_model_as_russian:
  "map_language (Some ''auto'') = None \<and>
   kw_language (transcribe_kwargs \<lparr>has_file = True, form_language = Some ''auto''\<rparr>) = Some ''russian'' \<and>
   kw_language (transcribe_kwargs \<lparr>has_file = True, form_language = Some ''en''\<rparr>) = Some ''russian''"
  by (simp add: map_language_def language_map_def transcribe_kwargs_def Let_def)

section \<open>Audio post-processing: properties\<close>

text \<open>
  The exact quotient that \<open>new_length\<close> rounds, and the new length of some signals.
  135 samples become 124: the exact quotient is a little less than 125 and the float64
  nearest to it is below 125.
\<close>

lemma pitch_factor_quotient:
  "real n / pitch_factor = real (n * 2 ^ 49) / 607985949695017"
  by (simp add: pitch_factor_def)

lemma pitch_factor_nearest: "\<bar>pitch_factor - 1.08\<bar> \<le> 1 / 2 ^ 53"
  by (simp add: pitch_factor_def)

lemma bit_length_0: "bit_length 0 = 0"
  by (simp add: bit_length.simps)

lemma bit_length_pos: "0 < n \<Longrightarrow> bit_length n = Suc (bit_length (n div 2))"
  by (subst bit_length.simps) simp

lemma new_length_values:
  "new_length 2 = 1" "new_length 3 = 2" "new_length 4 = 3" "new_length 5 = 4"
  "new_length 135 = 124"
  by (simp_all add: new_length_def round_half_even_def bit_length_0 bit_length_pos Let_def)

lemma delay_samples_22050: "delay_samples 22050 = 441"
  by (simp add: delay_samples_def)

lemma compress_zero: "compress (Num 0) = Num 0"
  by (simp add: compress_def threshold_def)

lemma add_reverb_short: "length xs \<le> d \<Longrightarrow> add_reverb d xs = Inr xs"
  by (simp add: add_reverb_def)

lemma add_reverb_zeros:
  "0 < d \<Longrightarrow> add_reverb d (replicate k (Num 0)) = Inr (replicate k (Num 0))"
proof (cases "d < k")
  case False
  then show ?thesis by (simp add: add_reverb_def)
next
  case True
  assume "0 < d"
  have "map2 (\<lambda>r c. fadd r (fmul c (Num 0.15))) (replicate (k - d) (Num 0)) (replicate (k - d) (Num 0))
        = replicate (k - d) (Num 0)"
    by (simp add: zip_replicate)
  moreover have "min k (k - d) = k - d" by simp
  moreover have "replicate (min k d) (Num 0) @ replicate (k - d) (Num 0) = replicate k (Num (0::real))"
    using True by (simp add: replicate_add [symmetric] min_def)
  ultimately show ?thesis
    using True \<open>0 < d\<close> by (simp add: add_reverb_def)
qed

lemma funpow_fmax_zero: "(fmax (Num 0) ^^ n) (Num 0) = Num 0"
  by (induction n) simp_all

lemma fold_fmax_zeros: "fold fmax (replicate n (Num 0)) (Num 0) = Num 0"
  using funpow_fmax_zero [of n] by simp

lemma np_max_zeros: "np_max (replicate (Suc n) (Num 0)) = Inr (Num 0)"
  by (simp add: funpow_fmax_zero)

lemma peak_scale_zeros:
  "0 < k \<Longrightarrow> peak_scale target (replicate k (Num 0)) = Inr (replicate k NaN)"
proof -
  assume "0 < k"
  then obtain n where k: "k = Suc n" by (cases k) auto
  have "np_max (map fabs (replicate k (Num 0))) = Inr (Num 0)"
    unfolding k using np_max_zeros [of n] by simp
  then show ?thesis by (simp add: peak_scale_def)
qed

lemma saturate_NaN: "saturate NaN = NaN"
  by (simp add: saturate_def)

lemma enhance_silent:
  assumes "resample audio (new_length (length audio)) = Inr (replicate k (Num 0))"
    and "lowpass (cutoff / (sample_rate / 2)) (replicate k (Num 0)) = Inr (replicate k (Num 0))"
    and "0 < k" and "0 < delay_samples sample_rate"
  shows "enhance_voice_quality resample lowpass audio sample_rate = Inr (replicate k NaN)"
  using assms
  by (simp add: enhance_voice_quality_def compress_zero add_reverb_zeros peak_scale_zeros saturate_NaN)

lemma resample_hold_zeros:
  "0 < num \<Longrightarrow> 0 < n \<Longrightarrow> resample_hold (replicate n (Num 0)) num = Inr (replicate num (Num 0))"
proof -
  assume num: "0 < num" and n: "0 < n"
  have "\<And>i. i < num \<Longrightarrow> i * n div num < n"
  proof -
    fix i assume "i < num"
    then have "i * n < num * n" using n by simp
    then show "i * n div num < n"
      using num by (simp add: less_mult_imp_div_less mult.commute) 
  qed
  then have "map (\<lambda>i. replicate n (Num (0::real)) ! (i * n div num)) [0..<num] = replicate num (Num 0)"
    by (intro nth_equalityI) simp_all
  then show ?thesis using num by (simp add: resample_hold_def)
qed

lemma lowpass_bypass_22050: "lowpass_bypass (cutoff / (22050 / 2)) x = Inr x"
  by (simp add: lowpass_bypass_def cutoff_def)

lemma lowpass_bypass_22050': "lowpass_bypass (cutoff / 11025) x = Inr x"
  by (simp add: lowpass_bypass_def cutoff_def)

lemma enhance_silent_hold:
  assumes "0 < n" and "0 < new_length n"
  shows "enhance_voice_quality resample_hold lowpass_bypass (replicate n (Num 0)) 22050 =
           Inr (replicate (new_length n) NaN)"
  by (rule enhance_silent)
     (use assms in \<open>simp_all add: resample_hold_zeros lowpass_bypass_22050' delay_samples_22050\<close>)

text \<open>
  C1 as stated fails: the peak normalisation has no guard. On a silent signal it
  divides zero by the zero maximum, which raises nothing and yields NaN in every sample,
  so the stage does not return the signal unchanged and the enhanced silence is not
  zero.
\<close>

theorem silent_input_counterexample:
  "peak_scale 0.95 [Num 0, Num 0, Num 0] = Inr [NaN, NaN, NaN] \<and>
   enhance_voice_quality resample_hold lowpass_bypass [Num 0, Num 0, Num 0, Num 0] 22050 =
     Inr [NaN, NaN, NaN]"
proof -
  have a: "peak_scale 0.95 (replicate 3 (Num 0)) = Inr (replicate 3 NaN)"
    by (rule peak_scale_zeros) simp
  have b: "enhance_voice_quality resample_hold lowpass_bypass (replicate 4 (Num 0)) 22050 =
           Inr (replicate (new_length 4) NaN)"
    by (rule enhance_silent_hold) (simp_all add: new_length_values)
  have c: "new_length 4 = 3" by (rule new_length_values)
  from a b c show ?thesis by (simp add: numeral_eq_Suc)
qed


text \<open>
  C1, as the code has it. For an all-silent input that the library stages keep silent
  (a resampled signal of \<open>k > 0\<close> zero samples, filtered to \<open>k\<close> zero samples), at a
  sample rate with a delay of at least one sample, \<open>enhance_voice_quality\<close> raises
  nothing: the peak normalisation divides by the zero maximum and every sample of its
  result, and of the returned sequence, is NaN.
\<close>

theorem silent_input_yields_nan:
  assumes "audio = replicate n (Num 0)"
    and "resample audio (new_length (length audio)) = Inr (replicate k (Num 0))"
    and "lowpass (cutoff / (sample_rate / 2)) (replicate k (Num 0)) = Inr (replicate k (Num 0))"
    and "0 < k" and "0 < delay_samples sample_rate"
  shows "peak_scale 0.95 (replicate k (Num 0)) = Inr (replicate k NaN) \<and>
         enhance_voice_quality resample lowpass audio sample_rate = Inr (replicate k NaN)"
  using assms enhance_silent [of resample audio k lowpass sample_rate]
  by (simp add: peak_scale_zeros)

text \<open>Five silent samples, resampled to four.\<close>

theorem silent_input_yields_nan_witness:
  "peak_scale 0.95 (replicate 4 (Num 0)) = Inr (replicate 4 NaN) \<and>
   enhance_voice_quality resample_hold lowpass_bypass (replicate 5 (Num 0)) 22050 =
     Inr (replicate 4 NaN)"
proof -
  have k: "new_length (length (replicate 5 (Num 0))) = 4"
    by (simp add: new_length_values)
  have 1: "resample_hold (replicate 5 (Num 0)) (new_length (length (replicate 5 (Num 0)))) =
           Inr (replicate 4 (Num 0))"
    unfolding k by (rule resample_hold_zeros) simp_all
  have 2: "lowpass_bypass (cutoff / (22050 / 2)) (replicate 4 (Num 0)) = Inr (replicate 4 (Num 0))"
    by (rule lowpass_bypass_22050)
  have 3: "0 < delay_samples 22050" by (simp add: delay_samples_22050)
  show ?thesis
    using silent_input_yields_nan
      [of "replicate 5 (Num 0)" 5 resample_hold 4 lowpass_bypass 22050] 1 2 3
    by simp
qed

lemma saturate_cases:
  "saturate x = NaN \<or> (\<exists>r. saturate x = Num r \<and> \<bar>r\<bar> \<le> 0.8)"
proof (cases x)
  case (Num a)
  have "\<bar>tanh (a * 1.2)\<bar> < 1"
    using tanh_real_lt_1 [of "a * 1.2"] tanh_real_gt_neg1 [of "a * 1.2"] by (simp add: abs_less_iff)
  then have "\<bar>tanh (a * 1.2) * 0.8\<bar> \<le> 0.8"
    by (simp add: abs_mult)
  moreover have "saturate x = Num (tanh (a * 1.2) * 0.8)"
    using Num by (simp add: saturate_def)
  ultimately show ?thesis by blast
next
  case PInf
  then have "saturate x = Num 0.8" by (simp add: saturate_def)
  moreover have "\<bar>0.8 :: real\<bar> \<le> 0.8" by simp
  ultimately show ?thesis by blast
next
  case MInf
  then have "saturate x = Num (- 0.8)" by (simp add: saturate_def)
  moreover have "\<bar>- 0.8 :: real\<bar> \<le> 0.8" by simp
  ultimately show ?thesis by blast
next
  case NaN
  then show ?thesis by (simp add: saturate_def)
qed

lemma saturate_not_greater: "\<not> fgt (fabs (saturate x)) (Num 0.8)"
  using saturate_cases [of x] by auto

lemma enhance_is_saturated:
  assumes "enhance_voice_quality resample lowpass audio sample_rate = Inr ys"
  shows "\<exists>zs. ys = map saturate zs"
  using assms by (auto simp: enhance_voice_quality_def split: sum.splits)

lemma compress_one: "compress (Num 1) = Num 0.7"
  by (simp add: compress_def threshold_def ratio_def fsub_def)

lemma enhance_ones:
  "enhance_voice_quality resample_hold lowpass_bypass [Num 1, Num 1] 22050 =
     Inr [Num (tanh 1.14 * 0.8)]"
proof -
  have "new_length (Suc (Suc 0)) = Suc 0"
    using new_length_values(1) by (simp add: numeral_2_eq_2)
  then have 1: "resample_hold [Num 1, Num 1] (new_length (length [Num 1, Num 1])) = Inr [Num 1]"
    by (simp add: resample_hold_def)
  have 2: "add_reverb (delay_samples 22050) [Num 0.7] = Inr [Num 0.7]"
    by (simp add: add_reverb_def delay_samples_22050)
  have 3: "peak_scale 0.95 [Num 0.7] = Inr [Num 0.95]"
    by (simp add: peak_scale_def)
  have 4: "saturate (Num 0.95) = Num (tanh 1.14 * 0.8)"
    by (simp add: saturate_def)
  show ?thesis
    using 1 2 3 4
    by (simp add: enhance_voice_quality_def lowpass_bypass_22050 lowpass_bypass_22050' compress_one)
qed

lemma compress_minus_one: "compress (Num (- 1)) = Num (- 0.7)"
  by (simp add: compress_def threshold_def ratio_def fsub_def)

lemma enhance_minus_ones:
  "enhance_voice_quality resample_hold lowpass_bypass [Num (- 1), Num (- 1)] 22050 =
     Inr [Num (- (tanh 1.14 * 0.8))]"
proof -
  have "new_length (Suc (Suc 0)) = Suc 0"
    using new_length_values(1) by (simp add: numeral_2_eq_2)
  then have 1: "resample_hold [Num (- 1), Num (- 1)] (new_length (length [Num (- 1), Num (- 1)])) =
      Inr [Num (- 1)]"
    by (simp add: resample_hold_def)
  have 2: "add_reverb (delay_samples 22050) [Num (- 0.7)] = Inr [Num (- 0.7)]"
    by (simp add: add_reverb_def delay_samples_22050)
  have 3: "peak_scale 0.95 [Num (- 0.7)] = Inr [Num (- 0.95)]"
    by (simp add: peak_scale_def)
  have 4: "saturate (Num (- 0.95)) = Num (- (tanh 1.14 * 0.8))"
    by (simp add: saturate_def)
  show ?thesis
    using 1 2 3 4
    by (simp add: enhance_voice_quality_def lowpass_bypass_22050 lowpass_bypass_22050' compress_minus_one)
qed

text \<open>
  C7, as the code has it. Whatever the library stages return, no sample of a sequence
  returned by \<open>enhance_voice_quality\<close> has a magnitude greater than 0.8: each sample
  is NaN or has a magnitude of at most 0.8.
\<close>

theorem enhance_output_within_ceiling:
  assumes "enhance_voice_quality resample lowpass audio sample_rate = Inr ys"
    and "y \<in> set ys"
  shows "\<not> fgt (fabs y) (Num 0.8) \<and> (y = NaN \<or> fle (fabs y) (Num 0.8))"
proof -
  from enhance_is_saturated [OF assms(1)] assms(2) obtain z where y: "y = saturate z"
    by auto
  from saturate_cases [of z] show ?thesis
    unfolding y by (auto simp: fle_def)
qed

text \<open>
  Two samples of the level -1 are enhanced to one sample of the value
  \<open>- (tanh 1.14 * 0.8)\<close>, whose magnitude is positive and at most 0.8.
\<close>

theorem enhance_output_within_ceiling_witness:
  "enhance_voice_quality resample_hold lowpass_bypass [Num (- 1), Num (- 1)] 22050 =
     Inr [Num (- (tanh 1.14 * 0.8))] \<and>
   0 < tanh 1.14 * (0.8 :: real) \<and>
   \<not> fgt (fabs (Num (- (tanh 1.14 * 0.8)))) (Num 0.8) \<and>
   fle (fabs (Num (- (tanh 1.14 * 0.8)))) (Num 0.8)"
proof -
  have "Num (- (tanh 1.14 * 0.8)) \<in> set [Num (- (tanh 1.14 * 0.8))]" by simp
  from enhance_output_within_ceiling [OF enhance_minus_ones this]
  have "\<not> fgt (fabs (Num (- (tanh 1.14 * 0.8)))) (Num 0.8)"
    and "fle (fabs (Num (- (tanh 1.14 * 0.8)))) (Num 0.8)"
    by simp_all
  moreover have "0 < tanh 1.14 * (0.8 :: real)" by simp
  ultimately show ?thesis using enhance_minus_ones by blast
qed

text \<open>
  C7 as stated fails for a finite non-empty input: two silent samples are enhanced to
  one sample that is NaN, and NaN is not at most 0.8.
\<close>

theorem ceiling_counterexample:
  "enhance_voice_quality resample_hold lowpass_bypass [Num 0, Num 0] 22050 = Inr [NaN] \<and>
   \<not> fle (fabs NaN) (Num 0.8)"
proof -
  have e: "enhance_voice_quality resample_hold lowpass_bypass (replicate 2 (Num 0)) 22050 =
           Inr (replicate (new_length 2) NaN)"
    by (rule enhance_silent_hold) (simp_all add: new_length_values)
  have n: "new_length 2 = 1" by (rule new_length_values)
  from e n show ?thesis by (simp add: numeral_eq_Suc fle_def)
qed

lemma fold_fmax_Num: "fold fmax (map Num rs) (Num a) = Num (fold max rs a)"
  by (induction rs arbitrary: a) (simp_all add: max_def)

lemma np_max_Num: "rs \<noteq> [] \<Longrightarrow> np_max (map Num rs) = Inr (Num (Max (set rs)))"
proof -
  assume "rs \<noteq> []"
  then obtain a as where rs: "rs = a # as" by (cases rs) auto
  show ?thesis
    unfolding rs using Max.set_eq_fold [of a as] by (simp add: fold_fmax_Num)
qed

lemma finite_samples:
  assumes "\<forall>x\<in>set xs. \<exists>r. x = Num r"
  shows "\<exists>rs. xs = map Num rs"
  using assms
proof (induction xs)
  case Nil
  then show ?case by simp
next
  case (Cons x xs)
  then obtain r rs where "x = Num r" "xs = map Num rs" by auto
  then have "x # xs = map Num (r # rs)" by simp
  then show ?case ..
qed

lemma peak_scale_Num:
  assumes "rs \<noteq> []" and m: "m = Max (set (map abs rs))" and "m \<noteq> 0"
  shows "peak_scale target (map Num rs) = Inr (map (\<lambda>r. Num (r / m * target)) rs)"
proof -
  have e: "map fabs (map Num rs) = map Num (map abs rs)" by simp
  have "np_max (map fabs (map Num rs)) = Inr (Num m)"
    unfolding e m using assms(1) np_max_Num [of "map abs rs"] by simp
  then show ?thesis using \<open>m \<noteq> 0\<close> by (simp add: peak_scale_def)
qed

lemma peak_after_scale:
  fixes rs :: "real list"
  assumes "rs \<noteq> []" and m: "m = Max (set (map abs rs))" and "0 < m" and "0 < target"
  shows "Max (set (map abs (map (\<lambda>r. r / m * target) rs))) = target"
proof (rule Max_eqI)
  show "finite (set (map abs (map (\<lambda>r. r / m * target) rs)))" by simp
next
  fix y assume "y \<in> set (map abs (map (\<lambda>r. r / m * target) rs))"
  then obtain r where r: "r \<in> set rs" and y: "y = \<bar>r / m * target\<bar>" by auto
  have "\<bar>r\<bar> \<le> m" unfolding m using r by (intro Max_ge) auto
  then have "\<bar>r\<bar> / m \<le> 1" using \<open>0 < m\<close> by simp
  then have "\<bar>r\<bar> / m * target \<le> 1 * target"
    using \<open>0 < target\<close> by (intro mult_right_mono) simp_all
  then show "y \<le> target"
    using \<open>0 < m\<close> \<open>0 < target\<close> by (simp add: y abs_mult)
next
  have "m \<in> set (map abs rs)"
    unfolding m using assms(1) by (intro Max_in) auto
  then obtain r where r: "r \<in> set rs" and "m = \<bar>r\<bar>" by auto
  then have "\<bar>r / m * target\<bar> = target"
    using \<open>0 < m\<close> \<open>0 < target\<close> by (simp add: abs_mult)
  then show "target \<in> set (map abs (map (\<lambda>r. r / m * target) rs))"
    using r by force
qed

lemma peak_scale_NaNs:
  "peak_scale target (replicate (Suc k) NaN) = Inr (replicate (Suc k) NaN)"
  by (simp add: peak_scale_def)

text \<open>
  C10 as stated fails: the enhanced waveform of three silent samples is two NaN samples.
  It is not silent, no sample of it being zero, and the second normalisation returns
  NaN samples again, whose peak is NaN and not 0.9.
\<close>

theorem second_normalization_counterexample:
  "enhance_voice_quality resample_hold lowpass_bypass [Num 0, Num 0, Num 0] 22050 =
     Inr [NaN, NaN] \<and>
   Num 0 \<notin> set [NaN, NaN] \<and>
   synthesize_audio resample_hold lowpass_bypass [Num 0, Num 0, Num 0] = Inr [NaN, NaN] \<and>
   np_max (map fabs [NaN, NaN]) = Inr NaN \<and>
   np_max (map fabs [NaN, NaN]) \<noteq> Inr (Num 0.9)"
proof -
  have e: "enhance_voice_quality resample_hold lowpass_bypass (replicate 3 (Num 0)) 22050 =
           Inr (replicate (new_length 3) NaN)"
    by (rule enhance_silent_hold) (simp_all add: new_length_values)
  have n: "new_length 3 = 2" by (rule new_length_values)
  have e': "enhance_voice_quality resample_hold lowpass_bypass [Num 0, Num 0, Num 0] 22050 =
           Inr [NaN, NaN]"
    using e n by (simp add: numeral_eq_Suc)
  have "peak_scale 0.9 [NaN, NaN] = Inr [NaN, NaN]"
    using peak_scale_NaNs [of "0.9" 1] by simp
  with e' have "synthesize_audio resample_hold lowpass_bypass [Num 0, Num 0, Num 0] =
      Inr [NaN, NaN]"
    by (simp add: synthesize_audio_def)
  with e' show ?thesis by simp
qed

text \<open>
  C10, as the code has it. When every sample of the enhanced waveform is a finite number
  and not all of them are zero, \<open>synthesize\<close> divides every sample by the maximum
  absolute value \<open>m > 0\<close> of the enhanced waveform and scales by 0.9, and the peak
  magnitude of the result is 0.9.
\<close>

theorem second_normalization_peak:
  assumes "enhance_voice_quality resample lowpass waveform 22050 = Inr enhanced"
    and "\<forall>x\<in>set enhanced. \<exists>r. x = Num r"
    and "\<exists>x\<in>set enhanced. x \<noteq> Num 0"
  shows "\<exists>m ys. np_max (map fabs enhanced) = Inr (Num m) \<and> 0 < m \<and>
           synthesize_audio resample lowpass waveform = Inr ys \<and>
           ys = map (\<lambda>x. fmul (fdiv x (Num m)) (Num 0.9)) enhanced \<and>
           np_max (map fabs ys) = Inr (Num 0.9)"
proof -
  from finite_samples [OF assms(2)] obtain rs where rs: "enhanced = map Num rs" by blast
  from assms(3) obtain r where r: "r \<in> set rs" "r \<noteq> 0" unfolding rs by auto
  then have ne: "rs \<noteq> []" by auto
  define m where "m = Max (set (map abs rs))"
  have "\<bar>r\<bar> \<le> m" unfolding m_def using r by (intro Max_ge) auto
  with r have pos: "0 < m" by simp
  let ?ys = "map (\<lambda>r. r / m * 0.9) rs"
  have e: "map fabs (map Num rs) = map Num (map abs rs)" by simp
  have max: "np_max (map fabs enhanced) = Inr (Num m)"
    unfolding rs e m_def using ne np_max_Num [of "map abs rs"] by simp
  have scaled: "peak_scale 0.9 enhanced = Inr (map Num ?ys)"
    unfolding rs using peak_scale_Num [OF ne m_def, of "0.9"] pos by (simp add: o_def)
  have syn: "synthesize_audio resample lowpass waveform = Inr (map Num ?ys)"
    using assms(1) scaled by (simp add: synthesize_audio_def)
  have form: "map Num ?ys = map (\<lambda>x. fmul (fdiv x (Num m)) (Num 0.9)) enhanced"
    unfolding rs using pos by simp
  have e': "map fabs (map Num ?ys) = map Num (map abs ?ys)" by simp
  have "np_max (map fabs (map Num ?ys)) = Inr (Num (Max (set (map abs ?ys))))"
    unfolding e' using ne np_max_Num [of "map abs ?ys"] by simp
  also have "Max (set (map abs ?ys)) = 0.9"
    using peak_after_scale [OF ne m_def pos, of "0.9"] by simp
  finally have peak: "np_max (map fabs (map Num ?ys)) = Inr (Num 0.9)" .
  from max pos syn form peak show ?thesis by metis
qed

text \<open>Two samples of full level: enhanced to one sample, normalised to 0.9.\<close>

theorem second_normalization_peak_witness:
  "enhance_voice_quality resample_hold lowpass_bypass [Num 1, Num 1] 22050 =
     Inr [Num (tanh 1.14 * 0.8)] \<and>
   synthesize_audio resample_hold lowpass_bypass [Num 1, Num 1] = Inr [Num 0.9] \<and>
   np_max (map fabs [Num 0.9]) = Inr (Num 0.9)"
proof -
  let ?t = "tanh 1.14 * 0.8 :: real"
  have pos: "0 < ?t" by simp
  have h2: "\<forall>x\<in>set [Num ?t]. \<exists>r. x = Num r"
  proof
    fix x assume "x \<in> set [Num ?t]"
    then have "x = Num ?t" by simp
    then show "\<exists>r. x = Num r" ..
  qed
  have h3: "\<exists>x\<in>set [Num ?t]. x \<noteq> Num 0" using pos by simp
  from second_normalization_peak [OF enhance_ones h2 h3]
  obtain m ys where m: "np_max (map fabs [Num ?t]) = Inr (Num m)"
    and syn: "synthesize_audio resample_hold lowpass_bypass [Num 1, Num 1] = Inr ys"
    and ys: "ys = map (\<lambda>x. fmul (fdiv x (Num m)) (Num 0.9)) [Num ?t]"
    by blast
  have "np_max (map fabs [Num ?t]) = Inr (Num ?t)"
    using pos by (simp add: abs_mult)
  with m have "m = ?t" by simp
  with ys pos have "ys = [Num 0.9]" by simp
  with syn enhance_ones show ?thesis by simp
qed

section \<open>Text preprocessing: properties\<close>

subsection \<open>The matches of the number pattern\<close>

lemma isdecimal_isword: "isdecimal db c \<Longrightarrow> isword db c"
  by (simp add: isword_def)

text \<open>The two branches of the scan.\<close>

lemma number_matches_match:
  assumes "\<not> p" and "takeWhile (isdecimal db) (c # cs) \<noteq> []"
    and "dropWhile (isdecimal db) (c # cs) = [] \<or>
         \<not> isword db (hd (dropWhile (isdecimal db) (c # cs)))"
  shows "number_matches db p (c # cs) =
           Inl (takeWhile (isdecimal db) (c # cs)) #
           number_matches db True (dropWhile (isdecimal db) (c # cs))"
  using assms by (simp only: number_matches.simps Let_def simp_thms if_True)

lemma number_matches_skip:
  assumes "p \<or> takeWhile (isdecimal db) (c # cs) = [] \<or>
           (dropWhile (isdecimal db) (c # cs) \<noteq> [] \<and>
            isword db (hd (dropWhile (isdecimal db) (c # cs))))"
  shows "number_matches db p (c # cs) = Inr c # number_matches db (isword db c) cs"
proof -
  have "\<not> (\<not> p \<and> takeWhile (isdecimal db) (c # cs) \<noteq> [] \<and>
          (dropWhile (isdecimal db) (c # cs) = [] \<or>
           \<not> isword db (hd (dropWhile (isdecimal db) (c # cs)))))"
    using assms by blast
  then show ?thesis by (simp only: number_matches.simps Let_def if_False)
qed

lemma number_matches_nondigit:
  "\<not> isdecimal db c \<Longrightarrow>
   number_matches db p (c # cs) = Inr c # number_matches db (isword db c) cs"
  by (rule number_matches_skip) simp

lemma number_matches_prev_word:
  "number_matches db True (c # cs) = Inr c # number_matches db (isword db c) cs"
  by (rule number_matches_skip) simp

lemma number_matches_prev:
  "t = [] \<or> \<not> isdecimal db (hd t) \<Longrightarrow> number_matches db p t = number_matches db q t"
  by (cases t) (simp_all add: number_matches_nondigit del: number_matches.simps(2))

lemma number_matches_no_digits:
  "\<forall>c\<in>set t. \<not> isdecimal db c \<Longrightarrow> number_matches db p t = map Inr t"
  by (induction t arbitrary: p) (simp_all add: number_matches_nondigit del: number_matches.simps(2))

lemma number_matches_digits_kept:
  "\<forall>c\<in>set ds. isdecimal db c \<Longrightarrow>
   number_matches db True (ds @ u) = map Inr ds @ number_matches db True u"
proof (induction ds)
  case Nil
  show ?case by simp
next
  case (Cons d ds)
  then have "isword db d" by (simp add: isword_def)
  with Cons show ?case
    using number_matches_prev_word [of db d "ds @ u"] by (simp del: number_matches.simps)
qed

text \<open>
  A maximal run of digits with no word character on either side is one match; with a
  word character before it or behind it, it holds no match.
\<close>

lemma takeWhile_run:
  assumes "\<forall>c\<in>set ds. isdecimal db c" and "post = [] \<or> \<not> isdecimal db (hd post)"
  shows "takeWhile (isdecimal db) (ds @ post) = ds"
    and "dropWhile (isdecimal db) (ds @ post) = post"
  using assms by (cases post; simp add: takeWhile_append2 dropWhile_append2)+

lemma number_matches_run:
  assumes "ds \<noteq> []" and "\<forall>c\<in>set ds. isdecimal db c"
    and "post = [] \<or> \<not> isword db (hd post)"
  shows "number_matches db False (ds @ post) = Inl ds # number_matches db True post"
proof -
  from assms(1) obtain d ds' where ds: "ds = d # ds'" by (cases ds) auto
  have post: "post = [] \<or> \<not> isdecimal db (hd post)"
    using assms(3) isdecimal_isword by blast
  note tw = takeWhile_run [OF assms(2) post]
  have "number_matches db False (d # ds' @ post) =
          Inl (takeWhile (isdecimal db) (d # ds' @ post)) #
          number_matches db True (dropWhile (isdecimal db) (d # ds' @ post))"
    using tw assms(1,3) unfolding ds by (intro number_matches_match) simp_all
  then show ?thesis using tw unfolding ds by simp
qed

lemma number_matches_touched_right:
  assumes "ds \<noteq> []" and "\<forall>c\<in>set ds. isdecimal db c"
    and "post \<noteq> []" and "isword db (hd post)" and "\<not> isdecimal db (hd post)"
  shows "number_matches db p (ds @ post) = map Inr ds @ number_matches db True post"
proof -
  from assms(1) obtain d ds' where ds: "ds = d # ds'" by (cases ds) auto
  note tw = takeWhile_run [OF assms(2), of post]
  have "number_matches db p (d # ds' @ post) =
          Inr d # number_matches db (isword db d) (ds' @ post)"
    using tw assms(3,4,5) unfolding ds by (intro number_matches_skip) simp
  moreover have "isword db d" using assms(2) isdecimal_isword unfolding ds by simp
  moreover have "number_matches db True (ds' @ post) = map Inr ds' @ number_matches db True post"
    using assms(2) unfolding ds by (intro number_matches_digits_kept) simp
  ultimately show ?thesis unfolding ds by simp
qed

text \<open>
  Behind a prefix that does not end in a digit the scan goes on as on the rest alone,
  knowing only whether the prefix ended in a word character.
\<close>

lemma number_matches_append:
  "pre \<noteq> [] \<Longrightarrow> \<not> isdecimal db (last pre) \<Longrightarrow>
   number_matches db p (pre @ x) =
     number_matches db p pre @ number_matches db (isword db (last pre)) x"
proof (induction db p pre rule: number_matches.induct)
  case (1 db prev_word)
  then show ?case by simp
next
  case (2 db prev_word c cs)
  define run where "run = takeWhile (isdecimal db) (c # cs)"
  define rest where "rest = dropWhile (isdecimal db) (c # cs)"
  have lastin: "last (c # cs) \<in> set (c # cs)" by (rule last_in_set) simp
  have tw: "takeWhile (isdecimal db) (c # cs @ x) = run"
    unfolding run_def using takeWhile_append1 [of "last (c # cs)" "c # cs" "isdecimal db" x] lastin "2.prems"(2)
    by simp
  have dw: "dropWhile (isdecimal db) (c # cs @ x) = rest @ x"
    unfolding rest_def using dropWhile_append1 [of "last (c # cs)" "c # cs" "isdecimal db" x] lastin "2.prems"(2)
    by simp
  have rest_ne: "rest \<noteq> []"
    unfolding rest_def using lastin "2.prems"(2) by (simp only: dropWhile_eq_Nil_conv) blast
  have "c # cs = run @ rest" unfolding run_def rest_def by (simp only: takeWhile_dropWhile_id)
  then have last_rest: "last rest = last (c # cs)"
    using rest_ne by (metis last_appendR)
  have hd_rest: "hd (rest @ x) = hd rest" using rest_ne by simp
  have step1: "number_matches db prev_word (c # cs) =
      (if \<not> prev_word \<and> run \<noteq> [] \<and> (rest = [] \<or> \<not> isword db (hd rest))
       then Inl run # number_matches db True rest
       else Inr c # number_matches db (isword db c) cs)"
    unfolding run_def rest_def by (simp only: number_matches.simps Let_def)
  have step2: "number_matches db prev_word ((c # cs) @ x) =
      (if \<not> prev_word \<and> run \<noteq> [] \<and> (rest = [] \<or> \<not> isword db (hd rest))
       then Inl run # number_matches db True (rest @ x)
       else Inr c # number_matches db (isword db c) (cs @ x))"
  proof -
    have "(rest @ x = [] \<or> \<not> isword db (hd (rest @ x))) = (rest = [] \<or> \<not> isword db (hd rest))"
      using rest_ne by simp
    then show ?thesis
      by (simp only: append_Cons number_matches.simps Let_def tw dw)
  qed
  show ?case
  proof (cases "\<not> prev_word \<and> run \<noteq> [] \<and> (rest = [] \<or> \<not> isword db (hd rest))")
    case True
    have ih: "number_matches db True (rest @ x) =
                number_matches db True rest @ number_matches db (isword db (last (c # cs))) x"
      using "2.IH"(1) [OF run_def rest_def True rest_ne] "2.prems"(2) last_rest by simp
    have "number_matches db prev_word ((c # cs) @ x) =
            Inl run # number_matches db True (rest @ x)"
      unfolding step2 using True by simp
    also have "\<dots> = (Inl run # number_matches db True rest) @
            number_matches db (isword db (last (c # cs))) x"
      by (simp only: ih append_Cons)
    also have "Inl run # number_matches db True rest =
            number_matches db prev_word (c # cs)"
      unfolding step1 using True by simp
    finally show ?thesis .
  next
    case False
    have l: "number_matches db prev_word ((c # cs) @ x) =
               Inr c # number_matches db (isword db c) (cs @ x)"
      unfolding step2 using False by (simp only: if_False)
    have r: "number_matches db prev_word (c # cs) = Inr c # number_matches db (isword db c) cs"
      unfolding step1 using False by (simp only: if_False)
    show ?thesis
    proof (cases "cs = []")
      case True
      then have "number_matches db (isword db c) (cs @ x) =
                   number_matches db (isword db (last (c # cs))) x"
        and "number_matches db (isword db c) cs = []"
        by simp_all
      then show ?thesis unfolding l r by simp
    next
      case cs: False
      have "number_matches db (isword db c) (cs @ x) =
              number_matches db (isword db c) cs @ number_matches db (isword db (last cs)) x"
        using "2.IH"(2) [OF run_def rest_def False cs] "2.prems"(2) cs by simp
      then show ?thesis unfolding l r using cs by simp
    qed
  qed
qed

subsection \<open>The number step\<close>

text \<open>
  The substitution raises when a matched run has more than 4300 digits, and returns the
  scanned text otherwise.
\<close>

lemma substitute_numbers:
  "substitute (\<lambda>m. case int_of db m of Inl e \<Rightarrow> Inl e | Inr num \<Rightarrow> Inr (conv num)) ts =
     (if \<exists>m. Inl m \<in> set ts \<and> max_str_digits < length m then Inl too_many_digits
      else Inr (concat (map (case_sum (\<lambda>m. conv (digits_value db m)) (\<lambda>c. [c])) ts)))"
proof (induction ts)
  case Nil
  show ?case by simp
next
  case (Cons tok ts)
  show ?case
  proof (cases tok)
    case (Inl m)
    show ?thesis
    proof (cases "max_str_digits < length m")
      case True
      then have "\<exists>m'. Inl m' \<in> set (tok # ts) \<and> max_str_digits < length m'"
        using Inl by auto
      then show ?thesis using True Inl by (simp add: int_of_def)
    next
      case False
      then have "(\<exists>m'. Inl m' \<in> set (tok # ts) \<and> max_str_digits < length m') =
                 (\<exists>m'. Inl m' \<in> set ts \<and> max_str_digits < length m')"
        using Inl by auto
      then show ?thesis using False Inl Cons.IH by (simp add: int_of_def)
    qed
  next
    case (Inr c)
    then have "(\<exists>m'. Inl m' \<in> set (tok # ts) \<and> max_str_digits < length m') =
               (\<exists>m'. Inl m' \<in> set ts \<and> max_str_digits < length m')"
      by auto
    then show ?thesis using Inr Cons.IH by simp
  qed
qed

lemma sub_numbers_scan:
  "sub_numbers db conv t =
     (if \<exists>m. Inl m \<in> set (number_matches db False t) \<and> max_str_digits < length m
      then Inl too_many_digits else Inr (scan_numbers db conv False t))"
  unfolding sub_numbers_def scan_numbers_def by (rule substitute_numbers)

text \<open>The scanned text, by the two branches of the scan.\<close>

lemma scan_numbers_simps [simp]:
  "scan_numbers db conv prev_word [] = []"
  "scan_numbers db conv prev_word (c # cs) =
     (let run = takeWhile (isdecimal db) (c # cs);
          rest = dropWhile (isdecimal db) (c # cs)
      in if \<not> prev_word \<and> run \<noteq> [] \<and> (rest = [] \<or> \<not> isword db (hd rest))
         then conv (digits_value db run) @ scan_numbers db conv True rest
         else c # scan_numbers db conv (isword db c) cs)"
  by (simp_all add: scan_numbers_def Let_def)

lemma scan_numbers_no_digits:
  "\<forall>c\<in>set t. \<not> isdecimal db c \<Longrightarrow> scan_numbers db conv p t = t"
  by (induction t arbitrary: p) simp_all

lemma sub_numbers_no_digits:
  assumes "\<forall>c\<in>set t. \<not> isdecimal db c"
  shows "sub_numbers db conv t = Inr t"
proof -
  have "number_matches db False t = map Inr t"
    using assms by (rule number_matches_no_digits)
  then show ?thesis
    using scan_numbers_no_digits [OF assms, of conv False]
    by (auto simp: sub_numbers_scan)
qed

text \<open>A text with at most 4300 digits holds no match that is too long.\<close>

lemma number_matches_length:
  "Inl m \<in> set (number_matches db p t) \<Longrightarrow> length m \<le> length (filter (isdecimal db) t)"
proof (induction t arbitrary: p rule: length_induct)
  case (1 t)
  show ?case
  proof (cases t)
    case Nil
    with "1.prems" show ?thesis by simp
  next
    case t: (Cons c cs)
    define run where "run = takeWhile (isdecimal db) (c # cs)"
    define rest where "rest = dropWhile (isdecimal db) (c # cs)"
    have split: "c # cs = run @ rest" unfolding run_def rest_def by simp
    have run: "filter (isdecimal db) run = run"
      unfolding run_def by (auto simp: filter_id_conv dest: set_takeWhileD)
    have count: "length (filter (isdecimal db) t) =
        length run + length (filter (isdecimal db) rest)"
      unfolding t split using run by simp
    show ?thesis
    proof (cases "\<not> p \<and> run \<noteq> [] \<and> (rest = [] \<or> \<not> isword db (hd rest))")
      case True
      have eq: "number_matches db p t = Inl run # number_matches db True rest"
        unfolding t run_def rest_def
        using True unfolding run_def rest_def by (intro number_matches_match) simp_all
      have "length rest < length t" using True split t
        by (metis length_append length_greater_0_conv less_add_same_cancel2 add.commute)
      then have "Inl m \<in> set (number_matches db True rest) \<Longrightarrow>
          length m \<le> length (filter (isdecimal db) rest)"
        using "1.IH" by blast
      with "1.prems" show ?thesis unfolding eq count by auto
    next
      case False
      have eq: "number_matches db p t = Inr c # number_matches db (isword db c) cs"
        unfolding t using False unfolding run_def rest_def by (intro number_matches_skip) blast
      have "Inl m \<in> set (number_matches db (isword db c) cs)"
        using "1.prems" unfolding eq by simp
      moreover have "length cs < length t" using t by simp
      ultimately have "length m \<le> length (filter (isdecimal db) cs)"
        using "1.IH" by blast
      then show ?thesis unfolding t by simp
    qed
  qed
qed

lemma sub_numbers_returns:
  assumes "length (filter (isdecimal db) t) \<le> max_str_digits"
  shows "sub_numbers db conv t = Inr (scan_numbers db conv False t)"
proof -
  have "\<not> (\<exists>m. Inl m \<in> set (number_matches db False t) \<and> max_str_digits < length m)"
    using number_matches_length [of _ db False t] assms by fastforce
  then show ?thesis by (simp add: sub_numbers_scan)
qed

subsection \<open>Texts without the characters a step looks for\<close>

lemma replace_scan_absent:
  "old \<noteq> [] \<Longrightarrow> hd old \<notin> set t \<Longrightarrow> replace_scan old new t = t"
proof (induction t)
  case Nil
  then show ?case by simp
next
  case (Cons c cs)
  then have "\<not> prefix old (c # cs)"
    by (cases old) auto
  with Cons show ?case by simp
qed

lemma replace_absent:
  "old \<noteq> [] \<Longrightarrow> hd old \<notin> set t \<Longrightarrow> replace old new t = t"
  by (simp add: replace_def replace_scan_absent)

lemma strip_no_space: "\<forall>c\<in>set t. \<not> isspace c \<Longrightarrow> strip t = t"
proof -
  assume a: "\<forall>c\<in>set t. \<not> isspace c"
  then have "dropWhile isspace t = t" by (cases t) auto
  moreover from a have "dropWhile isspace (rev t) = rev t" by (cases "rev t") auto
  ultimately show ?thesis by (simp add: strip_def)
qed

lemma collapse_ws_no_space: "\<forall>c\<in>set t. \<not> isspace c \<Longrightarrow> collapse_ws t = t"
  by (induction t) simp_all

lemma add_pause_absent: "\<forall>c\<in>set t. \<not> mark c \<Longrightarrow> add_pause mark t = t"
  by (induction t) simp_all

lemma split_sentences_absent:
  "\<forall>c\<in>set t. \<not> sentence_mark c \<Longrightarrow> split_sentences t = [t]"
  by (subst split_sentences.simps) (simp add: Let_def)

subsection \<open>The length budget of local\_tts\_server\_optimized.py\<close>

lemma rsplit_head_no_space: "0x20 \<notin> set s \<Longrightarrow> rsplit_head s = s"
  by (simp add: rsplit_head_def)

lemma rsplit_head_space:
  assumes "0x20 \<in> set s"
  shows "\<exists>w. s = rsplit_head s @ 0x20 # w \<and> 0x20 \<notin> set w"
proof -
  let ?P = "\<lambda>c::nat. c \<noteq> 0x20"
  let ?w = "rev (takeWhile ?P (rev s))"
  have ne: "dropWhile ?P (rev s) \<noteq> []" using assms by (simp add: dropWhile_eq_Nil_conv)
  then obtain d ds where d: "dropWhile ?P (rev s) = d # ds" by (cases "dropWhile ?P (rev s)") auto
  then have "d = 0x20" using hd_dropWhile [of ?P "rev s"] ne by simp
  have "rev s = takeWhile ?P (rev s) @ dropWhile ?P (rev s)" by simp
  then have "rev s = takeWhile ?P (rev s) @ 0x20 # ds" using d \<open>d = 0x20\<close> by simp
  then have "s = rev ds @ 0x20 # ?w"
    by (metis rev_append rev_rev_ident rev.simps(2) append_Cons append_Nil append.assoc)
  moreover have "rsplit_head s = rev ds" using assms d by (simp add: rsplit_head_def)
  moreover have "0x20 \<notin> set ?w" using set_takeWhileD [of _ ?P "rev s"] by auto
  ultimately show ?thesis by metis
qed

lemma length_rsplit_head: "length (rsplit_head s) \<le> length s"
proof (cases "0x20 \<in> set s")
  case True
  from rsplit_head_space [OF True] obtain w where "s = rsplit_head s @ 0x20 # w" by blast
  then have "length s = length (rsplit_head s) + Suc (length w)"
    by (metis length_append length_Cons)
  then show ?thesis by simp
next
  case False
  then show ?thesis by (simp add: rsplit_head_no_space)
qed

text \<open>
  C6, as the code has it. \<open>preprocess_russian_text\<close> of local\_tts\_server\_optimized.py
  never returns more than 500 characters. When the punctuated text \<open>t1\<close> is longer, it
  keeps the first three sentences joined by a full stop and a space, \<open>t2\<close>; when that
  is still longer and its first 500 characters contain a space, the result is what is
  before the last space of these 500 characters.
\<close>

theorem optimized_text_within_budget:
  "length (preprocess_russian_text_optimized db t) \<le> 500 \<and>
   (let t1 = add_pause clause_mark (add_pause sentence_mark (filter (keeps db) t));
        t2 = join [0x2E, 0x20] (take 3 (split_sentences t1));
        r = preprocess_russian_text_optimized db t
    in (500 < length t1 \<and> length t2 \<le> 500 \<longrightarrow> r = t2) \<and>
       (500 < length t1 \<and> 500 < length t2 \<and> 0x20 \<in> set (take 500 t2) \<longrightarrow>
          (\<exists>w. take 500 t2 = r @ 0x20 # w \<and> 0x20 \<notin> set w)))"
proof -
  let ?t1 = "add_pause clause_mark (add_pause sentence_mark (filter (keeps db) t))"
  let ?t2 = "join [0x2E, 0x20] (take 3 (split_sentences ?t1))"
  let ?r = "preprocess_russian_text_optimized db t"
  have a: "length ?t1 \<le> 500 \<Longrightarrow> ?r = ?t1"
    by (simp add: preprocess_russian_text_optimized_def max_length_def Let_def)
  have b: "500 < length ?t1 \<Longrightarrow> length ?t2 \<le> 500 \<Longrightarrow> ?r = ?t2"
    by (simp add: preprocess_russian_text_optimized_def max_length_def Let_def)
  have c: "500 < length ?t1 \<Longrightarrow> 500 < length ?t2 \<Longrightarrow> ?r = rsplit_head (take 500 ?t2)"
    by (simp add: preprocess_russian_text_optimized_def max_length_def Let_def)
  have len: "length ?r \<le> 500"
  proof (cases "length ?t1 \<le> 500")
    case True
    then show ?thesis using a by simp
  next
    case False
    show ?thesis
    proof (cases "length ?t2 \<le> 500")
      case True
      then show ?thesis using b False by simp
    next
      case False
      have "length (rsplit_head (take 500 ?t2)) \<le> length (take 500 ?t2)"
        by (rule length_rsplit_head)
      then show ?thesis using c False \<open>\<not> length ?t1 \<le> 500\<close> by simp
    qed
  qed
  have d: "500 < length ?t1 \<Longrightarrow> 500 < length ?t2 \<Longrightarrow> 0x20 \<in> set (take 500 ?t2) \<Longrightarrow>
          (\<exists>w. take 500 ?t2 = ?r @ 0x20 # w \<and> 0x20 \<notin> set w)"
    using rsplit_head_space [of "take 500 ?t2"] c by metis
  show ?thesis
    unfolding Let_def using len b d by blast
qed

lemma isspace_a: "\<not> isspace 0x61"
  by (simp add: isspace_def)

lemma soft_letters:
  "preprocess_russian_text_soft ascii_russian (replicate n 0x61) = Inr (replicate n 0x61)"
proof -
  let ?t = "replicate n (0x61 :: nat)"
  have ws: "collapse_ws (strip ?t) = ?t"
    by (simp add: strip_no_space collapse_ws_no_space isspace_a)
  have p: "replace_all pauses_soft ?t = ?t"
    by (simp add: replace_all_def pauses_soft_def replace_absent)
  have ab: "replace_all abbreviations_soft ?t = ?t"
    by (simp add: replace_all_def abbreviations_soft_def replace_absent abbr_td_def abbr_tp_def
        abbr_itd_def abbr_te_def abbr_dr_def abbr_g_def)
  have nd: "\<forall>c\<in>set ?t. \<not> isdecimal ascii_russian c"
    by (simp add: isdecimal_def ascii_russian_def)
  show ?thesis
    by (simp add: preprocess_russian_text_soft_def ws p ab sub_numbers_no_digits [OF nd])
qed

lemma optimized_letters:
  assumes "500 < n"
  shows "preprocess_russian_text_optimized ascii_russian (replicate n 0x61) = replicate 500 0x61"
proof -
  let ?t = "replicate n (0x61 :: nat)"
  have f: "filter (keeps ascii_russian) ?t = ?t"
    by (simp add: keeps_def isword_def ascii_russian_def)
  have p: "add_pause clause_mark (add_pause sentence_mark ?t) = ?t"
    by (simp add: add_pause_absent sentence_mark_def clause_mark_def)
  have s: "split_sentences ?t = [?t]"
    by (simp add: split_sentences_absent sentence_mark_def)
  have t: "take 500 ?t = replicate 500 0x61"
    using assms by (simp add: min_def)
  have r: "rsplit_head (replicate 500 0x61) = replicate 500 0x61"
    by (rule rsplit_head_no_space) simp
  show ?thesis
    using assms by (simp add: preprocess_russian_text_optimized_def f p s t r max_length_def Let_def)
qed

lemma optimized_two_words:
  "preprocess_russian_text_optimized ascii_russian (replicate 300 0x61 @ 0x20 # replicate 300 0x61) =
     replicate 300 0x61"
proof -
  let ?t = "replicate 300 0x61 @ 0x20 # replicate 300 (0x61 :: nat)"
  have f: "filter (keeps ascii_russian) ?t = ?t"
    by (simp add: keeps_def isword_def ascii_russian_def isspace_def)
  have p: "add_pause clause_mark (add_pause sentence_mark ?t) = ?t"
    by (simp add: add_pause_absent sentence_mark_def clause_mark_def)
  have s: "split_sentences ?t = [?t]"
    by (rule split_sentences_absent) (simp add: sentence_mark_def)
  have t: "take 500 ?t = replicate 300 0x61 @ 0x20 # replicate 199 0x61"
    by (simp add: min_def)
  have dw: "dropWhile (\<lambda>c. c \<noteq> 0x20) (replicate 199 (0x61 :: nat) @ 0x20 # replicate 300 0x61) =
        0x20 # replicate 300 0x61"
    by (subst dropWhile_append2) simp_all
  have rv: "rev (replicate 300 (0x61 :: nat) @ 0x20 # replicate 199 0x61) =
        replicate 199 0x61 @ 0x20 # replicate 300 0x61"
    by simp
  have mem: "0x20 \<in> set (replicate 300 (0x61 :: nat) @ 0x20 # replicate 199 0x61)"
    by simp
  have r: "rsplit_head (replicate 300 0x61 @ 0x20 # replicate 199 0x61) = replicate 300 0x61"
    by (simp only: rsplit_head_def mem if_True rv dw list.sel rev_replicate)
  have l: "length ?t = 601" by simp
  show ?thesis
    unfolding preprocess_russian_text_optimized_def f p s Let_def max_length_def
    by (simp add: l t) (rule r)
qed

lemma optimized_four_sentences:
  assumes u: "\<forall>c\<in>set u. c = 0x61" and len: "500 < length u"
  shows "preprocess_russian_text_optimized ascii_russian
           ([0x61, 0x2E, 0x62, 0x2E, 0x63, 0x2E] @ u) =
         [0x61, 0x2E, 0x20, 0x20, 0x62, 0x2E, 0x20, 0x20, 0x63]"
proof -
  let ?t = "[0x61, 0x2E, 0x62, 0x2E, 0x63, 0x2E] @ u"
  let ?t1 = "[0x61, 0x2E, 0x20, 0x62, 0x2E, 0x20, 0x63, 0x2E, 0x20] @ u"
  from len obtain a v where uv: "u = a # v" by (cases u) auto
  have "keeps ascii_russian 0x61" by (simp add: keeps_def isword_def ascii_russian_def)
  then have fu: "filter (keeps ascii_russian) u = u"
    using u by (auto simp: filter_id_conv)
  have f: "filter (keeps ascii_russian) ?t = ?t"
    using fu by (simp add: keeps_def isword_def ascii_russian_def)
  have "\<not> isspace 0x61" by (simp add: isspace_def)
  then have du: "dropWhile isspace u = u"
    using u uv by auto
  have su: "add_pause sentence_mark u = u"
    using u by (intro add_pause_absent) (auto simp: sentence_mark_def)
  have p1: "add_pause sentence_mark ?t = ?t1"
    using du su by (simp add: sentence_mark_def isspace_def)
  have p2: "add_pause clause_mark ?t1 = ?t1"
    using u by (intro add_pause_absent) (auto simp: clause_mark_def)
  have last: "split_sentences (0x20 # u) = [0x20 # u]"
    using u by (intro split_sentences_absent) (auto simp: sentence_mark_def)
  have s3: "split_sentences ([0x20, 0x63, 0x2E, 0x20] @ u) = [[0x20, 0x63], 0x20 # u]"
    using last by (subst split_sentences.simps) (simp add: sentence_mark_def Let_def)
  have s2: "split_sentences ([0x20, 0x62, 0x2E, 0x20, 0x63, 0x2E, 0x20] @ u) =
        [[0x20, 0x62], [0x20, 0x63], 0x20 # u]"
    using s3 by (subst split_sentences.simps) (simp add: sentence_mark_def Let_def)
  have s1: "split_sentences ?t1 = [[0x61], [0x20, 0x62], [0x20, 0x63], 0x20 # u]"
    using s2 by (subst split_sentences.simps) (simp add: sentence_mark_def Let_def)
  show ?thesis
    unfolding preprocess_russian_text_optimized_def f p1 p2 s1 Let_def max_length_def
    using len by simp
qed

text \<open>
  Two words of 300 letters: the second one is dropped. Three short sentences before a
  long one: the three are kept, joined again.
\<close>

theorem optimized_text_within_budget_witness:
  "length (preprocess_russian_text_optimized ascii_russian
     (replicate 300 0x61 @ 0x20 # replicate 300 0x61)) \<le> 500 \<and>
   preprocess_russian_text_optimized ascii_russian
     (replicate 300 0x61 @ 0x20 # replicate 300 0x61) = replicate 300 0x61 \<and>
   length (preprocess_russian_text_optimized ascii_russian
     ([0x61, 0x2E, 0x62, 0x2E, 0x63, 0x2E] @ replicate 600 0x61)) \<le> 500 \<and>
   preprocess_russian_text_optimized ascii_russian
     ([0x61, 0x2E, 0x62, 0x2E, 0x63, 0x2E] @ replicate 600 0x61) =
     [0x61, 0x2E, 0x20, 0x20, 0x62, 0x2E, 0x20, 0x20, 0x63]"
proof (intro conjI)
  show "length (preprocess_russian_text_optimized ascii_russian
     (replicate 300 0x61 @ 0x20 # replicate 300 0x61)) \<le> 500"
    using optimized_text_within_budget
      [of ascii_russian "replicate 300 0x61 @ 0x20 # replicate 300 0x61"]
    by (rule conjunct1)
  show "preprocess_russian_text_optimized ascii_russian
     (replicate 300 0x61 @ 0x20 # replicate 300 0x61) = replicate 300 0x61"
    by (rule optimized_two_words)
  show "length (preprocess_russian_text_optimized ascii_russian
     ([0x61, 0x2E, 0x62, 0x2E, 0x63, 0x2E] @ replicate 600 0x61)) \<le> 500"
    using optimized_text_within_budget
      [of ascii_russian "[0x61, 0x2E, 0x62, 0x2E, 0x63, 0x2E] @ replicate 600 0x61"]
    by (rule conjunct1)
  show "preprocess_russian_text_optimized ascii_russian
     ([0x61, 0x2E, 0x62, 0x2E, 0x63, 0x2E] @ replicate 600 0x61) =
     [0x61, 0x2E, 0x20, 0x20, 0x62, 0x2E, 0x20, 0x20, 0x63]"
    by (rule optimized_four_sentences) simp_all
qed

text \<open>
  C6 as stated fails: soft\_female\_tts\_server.py has no length budget and returns a
  text of 501 letters as it is, and local\_tts\_server\_optimized.py cuts a word of 501
  letters after its 500th letter.
\<close>

theorem length_budget_counterexample:
  "preprocess_russian_text_soft ascii_russian (replicate 501 0x61) = Inr (replicate 501 0x61) \<and>
   length (replicate 501 (0x61 :: nat)) = 501 \<and>
   preprocess_russian_text_optimized ascii_russian (replicate 501 0x61) = replicate 500 0x61"
  using soft_letters [of 501] optimized_letters [of 501] by simp

subsection \<open>The numbers of a text\<close>

text \<open>The value of a run and \<open>str\<close> on ASCII numerals.\<close>

lemma digits_value_snoc:
  "digits_value db (ds @ [c]) =
     10 * digits_value db ds + (case todecimal db c of Some d \<Rightarrow> d | None \<Rightarrow> 0)"
  by (simp add: digits_value_def)

lemma ascii_digit_value:
  assumes "ucd_ok db" and "0x30 \<le> c" and "c \<le> 0x39"
  shows "todecimal db c = Some (c - 0x30)"
proof -
  have "c - 0x30 < 10" using assms(3) by simp
  with assms(1) have "todecimal db (0x30 + (c - 0x30)) = Some (c - 0x30)"
    unfolding ucd_ok_def by blast
  then show ?thesis using assms(2) by simp
qed

lemma digits_value_str_of: "ucd_ok db \<Longrightarrow> digits_value db (str_of n) = n"
proof (induction n rule: str_of.induct)
  case (1 n)
  show ?case
  proof (cases "n < 10")
    case True
    then have "todecimal db (0x30 + n) = Some n"
      using "1.prems" unfolding ucd_ok_def by blast
    then show ?thesis using True by (subst str_of.simps) (simp add: digits_value_def)
  next
    case False
    have "n mod 10 < 10" by simp
    then have d: "todecimal db (0x30 + n mod 10) = Some (n mod 10)"
      using "1.prems" unfolding ucd_ok_def by blast
    have "digits_value db (str_of (n div 10)) = n div 10"
      using "1.IH" [OF False "1.prems"] .
    then show ?thesis
      using False d by (subst str_of.simps) (simp add: digits_value_snoc)
  qed
qed

lemma str_of_digits_value:
  assumes ok: "ucd_ok db"
  shows "ds \<noteq> [] \<Longrightarrow> \<forall>c\<in>set ds. 0x30 \<le> c \<and> c \<le> 0x39 \<Longrightarrow> hd ds \<noteq> 0x30 \<Longrightarrow>
         str_of (digits_value db ds) = ds \<and> 0 < digits_value db ds"
proof (induction ds rule: rev_nonempty_induct)
  case (single c)
  then have c: "0x30 < c" "c \<le> 0x39" by auto
  then have v: "todecimal db c = Some (c - 0x30)"
    using ascii_digit_value [OF ok, of c] by simp
  have "digits_value db [c] = c - 0x30" using v by (simp add: digits_value_def)
  moreover have "str_of (c - 0x30) = [c]"
    using c by (subst str_of.simps) simp
  ultimately show ?case using c by simp
next
  case (snoc c ds)
  then have ih: "str_of (digits_value db ds) = ds" "0 < digits_value db ds" by auto
  from snoc.prems have c: "0x30 \<le> c" "c \<le> 0x39" by auto
  then have v: "todecimal db c = Some (c - 0x30)"
    using ascii_digit_value [OF ok, of c] by simp
  let ?m = "digits_value db ds"
  have n: "digits_value db (ds @ [c]) = 10 * ?m + (c - 0x30)"
    using v by (simp add: digits_value_snoc)
  have small: "c - 0x30 < 10" using c by simp
  have "\<not> 10 * ?m + (c - 0x30) < 10" using ih(2) by simp
  moreover have "(10 * ?m + (c - 0x30)) div 10 = ?m" using small by simp
  moreover have "(10 * ?m + (c - 0x30)) mod 10 = c - 0x30" using small by simp
  ultimately have "str_of (10 * ?m + (c - 0x30)) = str_of ?m @ [0x30 + (c - 0x30)]"
    by (subst str_of.simps) simp
  then have "str_of (digits_value db (ds @ [c])) = ds @ [c]"
    using n ih(1) c by simp
  moreover have "0 < digits_value db (ds @ [c])" using n ih(2) by simp
  ultimately show ?case by simp
qed

lemma numbers_None: "20 < n \<Longrightarrow> numbers n = None"
  by (simp add: numbers_def)

lemma convert_soft_large: "20 < n \<Longrightarrow> convert_number_to_words_soft n = str_of n"
  by (simp add: convert_number_to_words_soft_def numbers_None)

lemma small_cases:
  "n \<le> (20::nat) \<Longrightarrow> n \<in> {0, 1, 2, 3, 4, 5, 6, 7, 8, 9, 10, 11, 12, 13, 14, 15, 16, 17, 18, 19, 20}"
  by simp arith

lemma numbers_Some: "n \<le> 20 \<Longrightarrow> numbers n \<noteq> None"
  using small_cases [of n] by (auto simp: numbers_def)

lemma convert_soft_small:
  "n \<le> 20 \<Longrightarrow> convert_number_to_words_soft n = the (numbers n)"
  using numbers_Some [of n] by (auto simp: convert_number_to_words_soft_def)

lemma convert_upgraded_large: "10 < n \<Longrightarrow> convert_number_to_words_upgraded n = str_of n"
  by (simp add: convert_number_to_words_upgraded_def)

lemma convert_upgraded_small:
  "n \<le> 10 \<Longrightarrow> convert_number_to_words_upgraded n = the (numbers n)"
proof -
  assume "n \<le> 10"
  then have "n \<in> {0, 1, 2, 3, 4, 5, 6, 7, 8, 9, 10}" by simp arith
  then show ?thesis
    by (auto simp: convert_number_to_words_upgraded_def numbers_def)
qed

lemma convert_soft_table:
  "convert_number_to_words_soft n = (if n \<le> 20 then the (numbers n) else str_of n)"
  using convert_soft_small [of n] convert_soft_large [of n] by simp

lemma convert_upgraded_table:
  "convert_number_to_words_upgraded n = (if n \<le> 10 then the (numbers n) else str_of n)"
  using convert_upgraded_small [of n] convert_upgraded_large [of n] by simp

text \<open>
  The matches of a text around a maximal run of digits: the run is one match when no
  word character is next to it, and holds no match otherwise.
\<close>

lemma number_matches_maximal_run:
  assumes "ds \<noteq> []" and "\<forall>c\<in>set ds. isdecimal db c"
    and "pre = [] \<or> \<not> isdecimal db (last pre)"
    and "post = [] \<or> \<not> isdecimal db (hd post)"
  shows "number_matches db False (pre @ ds @ post) =
           number_matches db False pre @
           (if (pre \<noteq> [] \<and> isword db (last pre)) \<or> (post \<noteq> [] \<and> isword db (hd post))
            then map Inr ds else [Inl ds]) @
           number_matches db False post"
proof -
  have post: "number_matches db True post = number_matches db False post"
    using assms(4) by (rule number_matches_prev)
  have free: "\<not> (post \<noteq> [] \<and> isword db (hd post)) \<Longrightarrow>
      number_matches db False (ds @ post) = [Inl ds] @ number_matches db False post"
    using number_matches_run [OF assms(1,2), of post] post by auto
  have right: "post \<noteq> [] \<and> isword db (hd post) \<Longrightarrow>
      number_matches db p (ds @ post) = map Inr ds @ number_matches db False post" for p
    using number_matches_touched_right [OF assms(1,2), of post p] assms(4) post by auto
  have left: "number_matches db True (ds @ post) = map Inr ds @ number_matches db False post"
    using number_matches_digits_kept [OF assms(2), of post] post by simp
  show ?thesis
  proof (cases "pre = []")
    case True
    then show ?thesis using free right [of False] by auto
  next
    case False
    with assms(3) have nd: "\<not> isdecimal db (last pre)" by simp
    have "number_matches db False (pre @ ds @ post) =
        number_matches db False pre @ number_matches db (isword db (last pre)) (ds @ post)"
      using False nd by (rule number_matches_append)
    moreover have "number_matches db (isword db (last pre)) (ds @ post) =
        (if (pre \<noteq> [] \<and> isword db (last pre)) \<or> (post \<noteq> [] \<and> isword db (hd post))
         then map Inr ds else [Inl ds]) @ number_matches db False post"
    proof (cases "isword db (last pre)")
      case True
      then show ?thesis using left False by simp
    next
      case nw: False
      show ?thesis
      proof (cases "post \<noteq> [] \<and> isword db (hd post)")
        case True
        then show ?thesis using right [of False] nw by simp
      next
        case False
        then show ?thesis using free nw by auto
      qed
    qed
    ultimately show ?thesis by simp
  qed
qed

lemma sub_numbers_maximal_run:
  assumes "ds \<noteq> []" and "\<forall>c\<in>set ds. isdecimal db c"
    and "pre = [] \<or> \<not> isdecimal db (last pre)"
    and "post = [] \<or> \<not> isdecimal db (hd post)"
  shows "sub_numbers db conv (pre @ ds @ post) =
     (case sub_numbers db conv pre of
        Inl e \<Rightarrow> Inl e
      | Inr before \<Rightarrow>
     (case (if (pre \<noteq> [] \<and> isword db (last pre)) \<or> (post \<noteq> [] \<and> isword db (hd post))
            then Inr ds
            else case int_of db ds of Inl e \<Rightarrow> Inl e | Inr num \<Rightarrow> Inr (conv num)) of
        Inl e \<Rightarrow> Inl e
      | Inr middle \<Rightarrow>
     (case sub_numbers db conv post of
        Inl e \<Rightarrow> Inl e
      | Inr behind \<Rightarrow> Inr (before @ middle @ behind))))"
proof -
  define touched where
    "touched \<longleftrightarrow> (pre \<noteq> [] \<and> isword db (last pre)) \<or> (post \<noteq> [] \<and> isword db (hd post))"
  have m: "number_matches db False (pre @ ds @ post) =
      number_matches db False pre @ (if touched then map Inr ds else [Inl ds]) @
      number_matches db False post"
    unfolding touched_def using assms by (rule number_matches_maximal_run)
  have long: "(\<exists>m. Inl m \<in> set (number_matches db False (pre @ ds @ post)) \<and>
          max_str_digits < length m) \<longleftrightarrow>
      (\<exists>m. Inl m \<in> set (number_matches db False pre) \<and> max_str_digits < length m) \<or>
      (\<not> touched \<and> max_str_digits < length ds) \<or>
      (\<exists>m. Inl m \<in> set (number_matches db False post) \<and> max_str_digits < length m)"
    unfolding m by auto
  have scan: "scan_numbers db conv False (pre @ ds @ post) =
      scan_numbers db conv False pre @ (if touched then ds else conv (digits_value db ds)) @
      scan_numbers db conv False post"
    unfolding scan_numbers_def m by (simp add: concat_map_singleton o_def)
  show ?thesis
    unfolding sub_numbers_scan long scan touched_def [symmetric]
    by (simp add: int_of_def)
qed

text \<open>
  C8, as the code has it. Take a maximal run of decimal digits in a text. When a word
  character (a letter, a digit of another kind or the underscore) is directly before or
  behind the run, the run is left as it is. Otherwise \<open>int\<close> raises \<open>ValueError\<close> when
  the run has more than 4300 digits, and else the run is replaced by the word of its
  value when the value is in the table, 0 to 20 in soft\_female\_tts\_server.py and 0 to
  10 in upgraded\_tts\_server.py, and by the decimal numeral of its value otherwise. The
  text before and the text behind the run are converted on their own, and the first
  exception from left to right is the result. The numeral is the run itself when the run
  is made of ASCII digits and does not start with a zero.
\<close>

theorem numbers_step_on_maximal_runs:
  assumes "ucd_ok db"
    and "conv = convert_number_to_words_soft \<and> table = 20 \<or>
         conv = convert_number_to_words_upgraded \<and> table = 10"
    and "ds \<noteq> []" and "\<forall>c\<in>set ds. isdecimal db c"
    and "pre = [] \<or> \<not> isdecimal db (last pre)"
    and "post = [] \<or> \<not> isdecimal db (hd post)"
  shows "sub_numbers db conv (pre @ ds @ post) =
     (case sub_numbers db conv pre of
        Inl e \<Rightarrow> Inl e
      | Inr before \<Rightarrow>
     (case (if (pre \<noteq> [] \<and> isword db (last pre)) \<or> (post \<noteq> [] \<and> isword db (hd post))
            then Inr ds
            else if max_str_digits < length ds then Inl too_many_digits
            else if digits_value db ds \<le> table then Inr (the (numbers (digits_value db ds)))
            else Inr (str_of (digits_value db ds))) of
        Inl e \<Rightarrow> Inl e
      | Inr middle \<Rightarrow>
     (case sub_numbers db conv post of
        Inl e \<Rightarrow> Inl e
      | Inr behind \<Rightarrow> Inr (before @ middle @ behind)))) \<and>
     ((\<forall>c\<in>set ds. 0x30 \<le> c \<and> c \<le> 0x39) \<and> hd ds \<noteq> 0x30 \<longrightarrow>
        str_of (digits_value db ds) = ds)"
proof -
  have conv: "(case int_of db ds of Inl e \<Rightarrow> Inl e | Inr num \<Rightarrow> Inr (conv num)) =
      (if max_str_digits < length ds then Inl too_many_digits
       else if digits_value db ds \<le> table then Inr (the (numbers (digits_value db ds)))
       else Inr (str_of (digits_value db ds)))"
    using assms(2) convert_soft_table [of "digits_value db ds"]
      convert_upgraded_table [of "digits_value db ds"]
    by (auto simp: int_of_def)
  show ?thesis
    using sub_numbers_maximal_run [OF assms(3-6), of conv]
      str_of_digits_value [OF assms(1,3)]
    unfolding conv by blast
qed

text \<open>Running the step on Basic Latin and Russian text.\<close>

lemma ucd_ok_ascii_russian: "ucd_ok ascii_russian"
  unfolding ucd_ok_def isdecimal_def isword_def ascii_russian_def isspace_def
  by (auto split: if_splits)

lemmas run_simps =
  isdecimal_def isword_def ascii_russian_def digits_value_def str_of.simps numbers_def
  convert_number_to_words_soft_def convert_number_to_words_upgraded_def Let_def
  sub_numbers_def int_of_def max_str_digits_def

lemma long_run_raises:
  "sub_numbers ascii_russian conv (replicate 4301 0x31) = Inl too_many_digits"
proof -
  have "number_matches ascii_russian False (replicate 4301 0x31 @ []) =
      Inl (replicate 4301 0x31) # number_matches ascii_russian True []"
    by (rule number_matches_run) (simp_all add: isdecimal_def ascii_russian_def)
  then show ?thesis
    by (simp add: sub_numbers_scan max_str_digits_def)
qed

text \<open>
  The runs "21" and "5" between a space and a full stop, in both servers the run "15",
  the run "5" behind a letter and before a letter, and a run of 4301 digits.
\<close>

theorem numbers_step_on_maximal_runs_witness:
  "sub_numbers ascii_russian convert_number_to_words_soft [0x61, 0x20, 0x32, 0x31, 0x2E] =
     Inr [0x61, 0x20, 0x32, 0x31, 0x2E] \<and>
   str_of (digits_value ascii_russian [0x32, 0x31]) = [0x32, 0x31] \<and>
   sub_numbers ascii_russian convert_number_to_words_soft [0x61, 0x20, 0x35, 0x2E] =
     Inr [0x61, 0x20, 0x43F, 0x44F, 0x442, 0x44C, 0x2E] \<and>
   sub_numbers ascii_russian convert_number_to_words_soft [0x31, 0x35] =
     Inr [0x43F, 0x44F, 0x442, 0x43D, 0x430, 0x434, 0x446, 0x430, 0x442, 0x44C] \<and>
   sub_numbers ascii_russian convert_number_to_words_upgraded [0x31, 0x35] = Inr [0x31, 0x35] \<and>
   sub_numbers ascii_russian convert_number_to_words_soft [0x61, 0x35, 0x20] =
     Inr [0x61, 0x35, 0x20] \<and>
   sub_numbers ascii_russian convert_number_to_words_soft [0x20, 0x35, 0x61] =
     Inr [0x20, 0x35, 0x61] \<and>
   sub_numbers ascii_russian convert_number_to_words_soft ([0x61, 0x20] @ replicate 4301 0x31) =
     Inl too_many_digits"
proof -
  note ok = ucd_ok_ascii_russian
  have pre: "sub_numbers ascii_russian conv [0x61, 0x20] = Inr [0x61, 0x20]"
    and stop: "sub_numbers ascii_russian conv [0x2E] = Inr [0x2E]"
    and letter: "sub_numbers ascii_russian conv [0x61] = Inr [0x61]"
    and space: "sub_numbers ascii_russian conv [0x20] = Inr [0x20]"
    and empty: "sub_numbers ascii_russian conv [] = Inr []" for conv
    by (simp_all add: run_simps)
  have dec: "\<forall>c\<in>set ds. 0x30 \<le> c \<and> c \<le> 0x39 \<Longrightarrow> \<forall>c\<in>set ds. isdecimal ascii_russian c" for ds
    by (simp add: isdecimal_def ascii_russian_def)
  have 1: "sub_numbers ascii_russian convert_number_to_words_soft ([0x61, 0x20] @ [0x32, 0x31] @ [0x2E]) =
      Inr ([0x61, 0x20] @ [0x32, 0x31] @ [0x2E]) \<and>
      str_of (digits_value ascii_russian [0x32, 0x31]) = [0x32, 0x31]"
    using numbers_step_on_maximal_runs
      [OF ok, of convert_number_to_words_soft 20 "[0x32, 0x31]" "[0x61, 0x20]" "[0x2E]"]
    by (simp add: pre stop) (simp add: run_simps)
  have 2: "sub_numbers ascii_russian convert_number_to_words_soft ([0x61, 0x20] @ [0x35] @ [0x2E]) =
      Inr ([0x61, 0x20] @ [0x43F, 0x44F, 0x442, 0x44C] @ [0x2E])"
    using numbers_step_on_maximal_runs
      [OF ok, of convert_number_to_words_soft 20 "[0x35]" "[0x61, 0x20]" "[0x2E]"]
    by (simp add: pre stop) (simp add: run_simps)
  have 3: "sub_numbers ascii_russian convert_number_to_words_soft ([] @ [0x31, 0x35] @ []) =
      Inr ([] @ [0x43F, 0x44F, 0x442, 0x43D, 0x430, 0x434, 0x446, 0x430, 0x442, 0x44C] @ [])"
    using numbers_step_on_maximal_runs
      [OF ok, of convert_number_to_words_soft 20 "[0x31, 0x35]" "[]" "[]"]
    by (simp add: empty) (simp add: run_simps)
  have 4: "sub_numbers ascii_russian convert_number_to_words_upgraded ([] @ [0x31, 0x35] @ []) =
      Inr ([] @ [0x31, 0x35] @ [])"
    using numbers_step_on_maximal_runs
      [OF ok, of convert_number_to_words_upgraded 10 "[0x31, 0x35]" "[]" "[]"]
    by (simp add: empty) (simp add: run_simps)
  have 5: "sub_numbers ascii_russian convert_number_to_words_soft ([0x61] @ [0x35] @ [0x20]) =
      Inr ([0x61] @ [0x35] @ [0x20])"
    using numbers_step_on_maximal_runs
      [OF ok, of convert_number_to_words_soft 20 "[0x35]" "[0x61]" "[0x20]"]
    by (simp add: letter space) (simp add: run_simps)
  have 6: "sub_numbers ascii_russian convert_number_to_words_soft ([0x20] @ [0x35] @ [0x61]) =
      Inr ([0x20] @ [0x35] @ [0x61])"
    using numbers_step_on_maximal_runs
      [OF ok, of convert_number_to_words_soft 20 "[0x35]" "[0x20]" "[0x61]"]
    by (simp add: letter space) (simp add: run_simps)
  have 7: "sub_numbers ascii_russian convert_number_to_words_soft
        ([0x61, 0x20] @ replicate 4301 0x31 @ []) = Inl too_many_digits"
    using numbers_step_on_maximal_runs
      [OF ok, of convert_number_to_words_soft 20 "replicate 4301 0x31" "[0x61, 0x20]" "[]"]
    by (simp add: pre empty) (simp add: run_simps)
  from 1 2 3 4 5 6 7 show ?thesis by simp
qed

text \<open>
  C8 as stated fails: upgraded\_tts\_server.py leaves 15 as digits although it is
  between 0 and 20; the maximal run "5" of "a5" follows a letter and is not replaced;
  the run "0021", whose value is outside the table, is not passed through unchanged but
  becomes "21"; and a run of 4301 digits, whose value is outside the table, is not passed
  through either: the step raises \<open>ValueError\<close>.
\<close>

theorem number_runs_counterexample:
  "convert_number_to_words_upgraded 15 = [0x31, 0x35] \<and>
   sub_numbers ascii_russian convert_number_to_words_soft [0x61, 0x35] = Inr [0x61, 0x35] \<and>
   sub_numbers ascii_russian convert_number_to_words_soft [0x30, 0x30, 0x32, 0x31] =
     Inr [0x32, 0x31] \<and>
   sub_numbers ascii_russian convert_number_to_words_soft (replicate 4301 0x31) =
     Inl too_many_digits"
  using long_run_raises [of convert_number_to_words_soft] by (simp add: run_simps)

subsection \<open>The abbreviations\<close>


lemma replace_scan_skip:
  "\<not> prefix old (c # cs) \<Longrightarrow> replace_scan old new (c # cs) = c # replace_scan old new cs"
  by (simp only: replace_scan.simps simp_thms if_False)







lemma replace_scan_absent_sublist:
  "old \<noteq> [] \<Longrightarrow> \<not> sublist old t \<Longrightarrow> replace_scan old new t = t"
proof (induction t)
  case Nil
  then show ?case by simp
next
  case (Cons c cs)
  then have np: "\<not> prefix old (c # cs)" and "\<not> sublist old cs"
    by (auto simp: sublist_Cons_right)
  with Cons have "replace_scan old new cs = cs" by simp
  then show ?case using replace_scan_skip [OF np, of new] by simp
qed

lemmas abbr_defs =
  abbr_td_def full_td_def abbr_tp_def full_tp_def abbr_itd_def full_itd_def
  abbr_te_def full_te_def abbr_dr_def full_dr_def abbr_g_def full_g_def



















subsection \<open>Applying the preprocessing of soft\_female\_tts\_server.py twice\<close>

text \<open>
  The texts that the whitespace step leaves as they are: every whitespace character is
  a single space between two other characters.
\<close>

lemma isspace_space: "isspace 0x20"
  by (simp add: isspace_def)

lemma spaced_collapse: "spaced t \<Longrightarrow> collapse_ws t = t"
proof (induction t)
  case Nil
  then show ?case by simp
next
  case (Cons c cs)
  show ?case
  proof (cases "isspace c")
    case True
    with Cons.prems have c: "c = 0x20" and ne: "cs \<noteq> []" and h: "\<not> isspace (hd cs)"
      and s: "spaced cs" by simp_all
    from ne h have "dropWhile isspace cs = cs" by (cases cs) simp_all
    with True c Cons.IH [OF s] show ?thesis by simp
  next
    case False
    with Cons show ?thesis by simp
  qed
qed

lemma spaced_last: "spaced t \<Longrightarrow> t \<noteq> [] \<Longrightarrow> \<not> isspace (last t)"
  by (induction t) (auto split: if_splits)

lemma spaced_strip:
  assumes "spaced t" and "t = [] \<or> \<not> isspace (hd t)"
  shows "strip t = t"
proof (cases t)
  case Nil
  then show ?thesis by (simp add: strip_def)
next
  case (Cons c cs)
  with assms(2) have 1: "dropWhile isspace t = t" by simp
  have "\<not> isspace (last t)" using spaced_last [OF assms(1)] Cons by simp
  then have "\<not> isspace (hd (rev t))" by (simp add: hd_rev)
  then have 2: "dropWhile isspace (rev t) = rev t" using Cons by (cases "rev t") simp_all
  show ?thesis by (simp add: strip_def 1 2)
qed

lemma collapse_ws_hd:
  "t \<noteq> [] \<Longrightarrow> \<not> isspace (hd t) \<Longrightarrow> collapse_ws t \<noteq> [] \<and> hd (collapse_ws t) = hd t"
  by (cases t) simp_all

lemma spaced_collapse_ws:
  "t = [] \<or> \<not> isspace (last t) \<Longrightarrow> spaced (collapse_ws t)"
proof (induction t rule: collapse_ws.induct)
  case 1
  show ?case by simp
next
  case (2 c cs)
  show ?case
  proof (cases "isspace c")
    case True
    let ?r = "dropWhile isspace cs"
    from "2.prems" True have cs: "cs \<noteq> []" and l: "\<not> isspace (last cs)"
      by (auto split: if_splits)
    then have "last cs \<in> set cs" by simp
    with l have ne: "?r \<noteq> []" by (auto simp: dropWhile_eq_Nil_conv)
    then have h: "\<not> isspace (hd ?r)" using hd_dropWhile by blast
    have "cs = takeWhile isspace cs @ ?r" by simp
    then have "last ?r = last cs" using ne by (metis last_appendR)
    with l have "spaced (collapse_ws ?r)" using "2.IH"(1) [OF True] by simp
    moreover have "collapse_ws ?r \<noteq> [] \<and> hd (collapse_ws ?r) = hd ?r"
      using collapse_ws_hd [OF ne h] .
    ultimately show ?thesis using True h by (simp add: isspace_space)
  next
    case False
    with "2.prems" have "cs = [] \<or> \<not> isspace (last cs)" by (auto split: if_splits)
    with "2.IH"(2) [OF False] False show ?thesis by simp
  qed
qed

lemma strip_ends:
  "strip u = [] \<or> (\<not> isspace (hd (strip u)) \<and> \<not> isspace (last (strip u)))"
proof -
  let ?w = "dropWhile isspace u"
  let ?v = "dropWhile isspace (rev ?w)"
  show ?thesis
  proof (cases "?w = []")
    case True
    show ?thesis unfolding strip_def True by simp
  next
    case False
    then have hw: "\<not> isspace (hd ?w)" using hd_dropWhile by blast
    have "rev ?w = rev (tl ?w) @ [hd ?w]" using False by (metis hd_Cons_tl rev.simps(2))
    then have v: "?v = dropWhile isspace (rev (tl ?w)) @ [hd ?w]"
      using hw by (simp add: dropWhile_append3)
    then have ne: "?v \<noteq> []" by simp
    then have "\<not> isspace (hd ?v)" using hd_dropWhile by blast
    then have "\<not> isspace (last (rev ?v))" using ne by (simp add: last_rev)
    moreover have "hd (rev ?v) = hd ?w" unfolding v by simp
    ultimately show ?thesis using hw by (simp add: strip_def)
  qed
qed

lemma policy_spaced:
  assumes "collapse_ws (strip t) = t"
  shows "spaced t \<and> (t = [] \<or> \<not> isspace (hd t))"
proof -
  from strip_ends [of t] have "spaced (collapse_ws (strip t))"
    by (intro spaced_collapse_ws) blast
  moreover have "collapse_ws (strip t) = [] \<or> \<not> isspace (hd (collapse_ws (strip t)))"
  proof (cases "strip t = []")
    case True
    then show ?thesis by simp
  next
    case False
    with strip_ends [of t] have "\<not> isspace (hd (strip t))" by blast
    with collapse_ws_hd [OF False this] show ?thesis by simp
  qed
  ultimately show ?thesis using assms by simp
qed

lemma spaced_policy:
  "spaced t \<Longrightarrow> t = [] \<or> \<not> isspace (hd t) \<Longrightarrow> collapse_ws (strip t) = t"
  by (simp add: spaced_strip spaced_collapse)

text \<open>The two branches of the scan, for the scanned text.\<close>

lemma scan_numbers_match:
  assumes "\<not> p" and "takeWhile (isdecimal db) (c # cs) \<noteq> []"
    and "dropWhile (isdecimal db) (c # cs) = [] \<or>
         \<not> isword db (hd (dropWhile (isdecimal db) (c # cs)))"
  shows "scan_numbers db conv p (c # cs) =
           conv (digits_value db (takeWhile (isdecimal db) (c # cs))) @
           scan_numbers db conv True (dropWhile (isdecimal db) (c # cs))"
  using assms by (simp only: scan_numbers_simps Let_def simp_thms if_True)

lemma scan_numbers_skip:
  assumes "p \<or> takeWhile (isdecimal db) (c # cs) = [] \<or>
           (dropWhile (isdecimal db) (c # cs) \<noteq> [] \<and>
            isword db (hd (dropWhile (isdecimal db) (c # cs))))"
  shows "scan_numbers db conv p (c # cs) = c # scan_numbers db conv (isword db c) cs"
proof -
  have "\<not> (\<not> p \<and> takeWhile (isdecimal db) (c # cs) \<noteq> [] \<and>
          (dropWhile (isdecimal db) (c # cs) = [] \<or>
           \<not> isword db (hd (dropWhile (isdecimal db) (c # cs)))))"
    using assms by blast
  then show ?thesis by (simp only: scan_numbers_simps Let_def if_False)
qed

lemma scan_numbers_nondigit:
  "\<not> isdecimal db c \<Longrightarrow> scan_numbers db conv p (c # cs) = c # scan_numbers db conv (isword db c) cs"
  by (rule scan_numbers_skip) simp

lemma scan_numbers_prev_word:
  "scan_numbers db conv True (c # cs) = c # scan_numbers db conv (isword db c) cs"
  by (rule scan_numbers_skip) simp

lemma scan_numbers_prev:
  "t = [] \<or> \<not> isdecimal db (hd t) \<Longrightarrow> scan_numbers db conv p t = scan_numbers db conv q t"
  unfolding scan_numbers_def using number_matches_prev [of t db p q] by simp

lemma scan_numbers_run:
  assumes "ds \<noteq> []" and "\<forall>c\<in>set ds. isdecimal db c"
    and "post = [] \<or> \<not> isword db (hd post)"
  shows "scan_numbers db conv False (ds @ post) =
           conv (digits_value db ds) @ scan_numbers db conv True post"
  unfolding scan_numbers_def number_matches_run [OF assms] by simp

lemma scan_numbers_digits_kept:
  "\<forall>c\<in>set ds. isdecimal db c \<Longrightarrow>
   scan_numbers db conv True (ds @ u) = ds @ scan_numbers db conv True u"
proof (induction ds)
  case Nil
  show ?case by simp
next
  case (Cons d ds)
  then have "isword db d" by (simp add: isword_def)
  with Cons show ?case
    using scan_numbers_prev_word [of db conv d "ds @ u"] by (simp del: scan_numbers_simps)
qed

lemma scan_numbers_nondigits_kept:
  "\<forall>c\<in>set w. \<not> isdecimal db c \<Longrightarrow> z = [] \<or> \<not> isdecimal db (hd z) \<Longrightarrow>
   scan_numbers db conv p (w @ z) = w @ scan_numbers db conv True z"
proof (induction w arbitrary: p)
  case Nil
  then show ?case using scan_numbers_prev [of z db conv p True] by simp
next
  case (Cons c w)
  then have "scan_numbers db conv p (c # w @ z) = c # scan_numbers db conv (isword db c) (w @ z)"
    by (intro scan_numbers_nondigit) simp
  with Cons show ?case by (simp del: scan_numbers_simps)
qed

lemma str_of_digits: "str_of n \<noteq> [] \<and> (\<forall>c\<in>set (str_of n). 0x30 \<le> c \<and> c \<le> 0x39)"
proof (induction n rule: str_of.induct)
  case (1 n)
  show ?case
  proof (cases "n < 10")
    case True
    then show ?thesis by (subst (1 2) str_of.simps) simp
  next
    case False
    have "n mod 10 < 10" by simp
    then have "0x30 + n mod 10 \<le> 0x39" by linarith
    with "1.IH" [OF False] False show ?thesis
      by (subst (1 2) str_of.simps) auto
  qed
qed

lemma str_of_decimal:
  assumes "ucd_ok db"
  shows "\<forall>c\<in>set (str_of n). isdecimal db c"
proof
  fix c assume "c \<in> set (str_of n)"
  with str_of_digits [of n] have "0x30 \<le> c" "c \<le> 0x39" by auto
  with ascii_digit_value [OF assms] show "isdecimal db c" by (simp add: isdecimal_def)
qed

text \<open>
  The number step changes nothing in its own result, when every replacement is free of
  digits or is the decimal numeral of the value.
\<close>

lemma scan_numbers_idem:
  assumes ok: "ucd_ok db"
    and conv: "\<And>n. (\<forall>c\<in>set (conv n). \<not> isdecimal db c) \<or> conv n = str_of n"
  shows "scan_numbers db conv p (scan_numbers db conv p t) = scan_numbers db conv p t"
proof (induction t arbitrary: p rule: length_induct)
  case (1 t)
  show ?case
  proof (cases t)
    case Nil
    then show ?thesis by simp
  next
    case t: (Cons c cs)
    define run where "run = takeWhile (isdecimal db) (c # cs)"
    define rest where "rest = dropWhile (isdecimal db) (c # cs)"
    have split: "c # cs = run @ rest" unfolding run_def rest_def by simp
    show ?thesis
    proof (cases "\<not> p \<and> run \<noteq> [] \<and> (rest = [] \<or> \<not> isword db (hd rest))")
      case True
      let ?w = "conv (digits_value db run)"
      let ?z = "scan_numbers db conv True rest"
      have eq: "scan_numbers db conv p t = ?w @ ?z"
        unfolding t run_def rest_def
        using True unfolding run_def rest_def by (intro scan_numbers_match) simp_all
      have z: "?z = [] \<or> \<not> isword db (hd ?z)"
      proof (cases rest)
        case Nil
        then show ?thesis by simp
      next
        case (Cons r rs)
        with True have "\<not> isword db r" by simp
        then have "\<not> isdecimal db r" using isdecimal_isword by blast
        then have "?z = r # scan_numbers db conv (isword db r) rs"
          unfolding Cons by (rule scan_numbers_nondigit)
        with \<open>\<not> isword db r\<close> show ?thesis by simp
      qed
      then have zd: "?z = [] \<or> \<not> isdecimal db (hd ?z)" using isdecimal_isword by blast
      have "length rest < length t" using True split t
        by (metis length_append length_greater_0_conv less_add_same_cancel2 add.commute)
      then have ih: "scan_numbers db conv True ?z = ?z" using "1.IH" by blast
      from conv [of "digits_value db run"] have "scan_numbers db conv p (?w @ ?z) = ?w @ ?z"
      proof
        assume "\<forall>c\<in>set ?w. \<not> isdecimal db c"
        then show ?thesis using scan_numbers_nondigits_kept [OF _ zd] ih by simp
      next
        assume w: "?w = str_of (digits_value db run)"
        have "scan_numbers db conv False (str_of (digits_value db run) @ ?z) =
                conv (digits_value db (str_of (digits_value db run))) @ scan_numbers db conv True ?z"
          using str_of_digits str_of_decimal [OF ok] z by (intro scan_numbers_run) auto
        then show ?thesis using True ih w by (simp add: digits_value_str_of [OF ok])
      qed
      then show ?thesis unfolding eq .
    next
      case False
      let ?y = "scan_numbers db conv (isword db c) cs"
      have eq: "scan_numbers db conv p t = c # ?y"
        unfolding t using False unfolding run_def rest_def by (intro scan_numbers_skip) blast
      have ih: "scan_numbers db conv (isword db c) ?y = ?y"
        using "1.IH" t by simp
      have "scan_numbers db conv p (c # ?y) = c # scan_numbers db conv (isword db c) ?y"
      proof (cases "p \<or> \<not> isdecimal db c")
        case True
        then show ?thesis by (intro scan_numbers_skip) auto
      next
        case pc: False
        then have c: "isdecimal db c" and np: "\<not> p" by simp_all
        then have run: "run = c # takeWhile (isdecimal db) cs"
          and rest: "rest = dropWhile (isdecimal db) cs"
          unfolding run_def rest_def by simp_all
        with False np have ne: "rest \<noteq> []" and w: "isword db (hd rest)" by auto
        then obtain r rs where r: "rest = r # rs" by (cases rest) auto
        have nd: "\<not> isdecimal db r"
          using hd_dropWhile [of "isdecimal db" cs] ne r unfolding rest by simp
        let ?ds = "takeWhile (isdecimal db) cs"
        have ds: "\<forall>c\<in>set ?ds. isdecimal db c" by (auto dest: set_takeWhileD)
        have cs: "cs = ?ds @ r # rs" using r rest by (metis takeWhile_dropWhile_id)
        have "isword db c" using c isdecimal_isword by blast
        then have "?y = scan_numbers db conv True (?ds @ r # rs)" using cs by simp
        also have "\<dots> = ?ds @ scan_numbers db conv True (r # rs)"
          using ds by (rule scan_numbers_digits_kept)
        also have "scan_numbers db conv True (r # rs) = r # scan_numbers db conv (isword db r) rs"
          using nd by (rule scan_numbers_nondigit)
        finally have y: "?y = ?ds @ r # scan_numbers db conv (isword db r) rs" .
        have "dropWhile (isdecimal db) (c # ?y) = r # scan_numbers db conv (isword db r) rs"
          unfolding y using c ds nd by (simp add: dropWhile_append3)
        then show ?thesis
          using w r by (intro scan_numbers_skip) simp
      qed
      then show ?thesis unfolding eq ih .
    qed
  qed
qed

text \<open>The number step keeps the whitespace.\<close>

lemma spaced_append_nospace: "\<forall>c\<in>set u. \<not> isspace c \<Longrightarrow> spaced (u @ v) = spaced v"
  by (induction u) simp_all

lemma scan_numbers_cases:
  "scan_numbers db conv p (c # cs) =
     conv (digits_value db (takeWhile (isdecimal db) (c # cs))) @
     scan_numbers db conv True (dropWhile (isdecimal db) (c # cs)) \<and>
   takeWhile (isdecimal db) (c # cs) \<noteq> [] \<or>
   scan_numbers db conv p (c # cs) = c # scan_numbers db conv (isword db c) cs"
proof (cases "\<not> p \<and> takeWhile (isdecimal db) (c # cs) \<noteq> [] \<and>
    (dropWhile (isdecimal db) (c # cs) = [] \<or>
     \<not> isword db (hd (dropWhile (isdecimal db) (c # cs))))")
  case True
  then show ?thesis using scan_numbers_match [of p db c cs conv] by blast
next
  case False
  then show ?thesis using scan_numbers_skip [of p db c cs conv] by blast
qed

lemma scan_numbers_hd_nospace:
  assumes cv: "\<And>n. conv n \<noteq> [] \<and> (\<forall>c\<in>set (conv n). \<not> isspace c)"
    and "t \<noteq> []" and "\<not> isspace (hd t)"
  shows "scan_numbers db conv p t \<noteq> [] \<and> \<not> isspace (hd (scan_numbers db conv p t))"
proof -
  from assms(2) obtain c cs where t: "t = c # cs" by (cases t) auto
  define n where "n = digits_value db (takeWhile (isdecimal db) (c # cs))"
  have "scan_numbers db conv p t = conv n @ scan_numbers db conv True (dropWhile (isdecimal db) (c # cs))
        \<or> scan_numbers db conv p t = c # scan_numbers db conv (isword db c) cs"
    unfolding t n_def using scan_numbers_cases [of db conv p c cs] by blast
  then show ?thesis
  proof
    assume "scan_numbers db conv p t =
        conv n @ scan_numbers db conv True (dropWhile (isdecimal db) (c # cs))"
    moreover from cv [of n] have "conv n \<noteq> []" "\<not> isspace (hd (conv n))" by simp_all
    ultimately show ?thesis by simp
  next
    assume "scan_numbers db conv p t = c # scan_numbers db conv (isword db c) cs"
    then show ?thesis using assms(3) t by simp
  qed
qed

lemma scan_numbers_spaced:
  assumes ok: "ucd_ok db"
    and cv: "\<And>n. conv n \<noteq> [] \<and> (\<forall>c\<in>set (conv n). \<not> isspace c)"
  shows "spaced t \<Longrightarrow> spaced (scan_numbers db conv p t)"
proof (induction t arbitrary: p rule: length_induct)
  case (1 t)
  show ?case
  proof (cases t)
    case Nil
    then show ?thesis by simp
  next
    case t: (Cons c cs)
    define run where "run = takeWhile (isdecimal db) (c # cs)"
    define rest where "rest = dropWhile (isdecimal db) (c # cs)"
    have split: "c # cs = run @ rest" unfolding run_def rest_def by simp
    have run_nospace: "\<forall>c\<in>set run. \<not> isspace c"
      using ok unfolding run_def ucd_ok_def by (auto dest: set_takeWhileD)
    show ?thesis
    proof (cases "\<not> p \<and> run \<noteq> [] \<and> (rest = [] \<or> \<not> isword db (hd rest))")
      case True
      have eq: "scan_numbers db conv p t = conv (digits_value db run) @ scan_numbers db conv True rest"
        unfolding t run_def rest_def
        using True unfolding run_def rest_def by (intro scan_numbers_match) simp_all
      have "spaced rest"
        using "1.prems" spaced_append_nospace [OF run_nospace, of rest] unfolding t split by simp
      moreover have "length rest < length t" using True split t
        by (metis length_append length_greater_0_conv less_add_same_cancel2 add.commute)
      ultimately have "spaced (scan_numbers db conv True rest)" using "1.IH" by blast
      then show ?thesis
        unfolding eq using spaced_append_nospace cv by blast
    next
      case False
      have eq: "scan_numbers db conv p t = c # scan_numbers db conv (isword db c) cs"
        unfolding t using False unfolding run_def rest_def by (intro scan_numbers_skip) blast
      have scs: "spaced cs" using "1.prems" unfolding t by (simp split: if_splits)
      then have ih: "spaced (scan_numbers db conv (isword db c) cs)" using "1.IH" t by simp
      show ?thesis
      proof (cases "isspace c")
        case True
        with "1.prems" have "c = 0x20" "cs \<noteq> []" "\<not> isspace (hd cs)"
          unfolding t by simp_all
        with scan_numbers_hd_nospace [where conv = conv and t = cs and db = db and p = "isword db c"]
          cv ih True
        show ?thesis unfolding eq by simp
      next
        case False
        with ih show ?thesis unfolding eq by simp
      qed
    qed
  qed
qed

lemma numbers_letters:
  "numbers n = Some w \<Longrightarrow>
   w \<noteq> [] \<and> (\<forall>c\<in>set w. 0x430 \<le> c \<and> c \<le> 0x44F) \<and>
   hd w \<noteq> 0x440 \<and> last w \<noteq> 0x433 \<and> last w \<noteq> 0x434 \<and> last w \<noteq> 0x440"
proof -
  assume "numbers n = Some w"
  then have "(n, w) \<in> set
     [(0, [0x43D, 0x43E, 0x43B, 0x44C]),
      (1, [0x43E, 0x434, 0x438, 0x43D]),
      (2, [0x434, 0x432, 0x430]),
      (3, [0x442, 0x440, 0x438]),
      (4, [0x447, 0x435, 0x442, 0x44B, 0x440, 0x435]),
      (5, [0x43F, 0x44F, 0x442, 0x44C]),
      (6, [0x448, 0x435, 0x441, 0x442, 0x44C]),
      (7, [0x441, 0x435, 0x43C, 0x44C]),
      (8, [0x432, 0x43E, 0x441, 0x435, 0x43C, 0x44C]),
      (9, [0x434, 0x435, 0x432, 0x44F, 0x442, 0x44C]),
      (10, [0x434, 0x435, 0x441, 0x44F, 0x442, 0x44C]),
      (11, [0x43E, 0x434, 0x438, 0x43D, 0x43D, 0x430, 0x434, 0x446, 0x430, 0x442, 0x44C]),
      (12, [0x434, 0x432, 0x435, 0x43D, 0x430, 0x434, 0x446, 0x430, 0x442, 0x44C]),
      (13, [0x442, 0x440, 0x438, 0x43D, 0x430, 0x434, 0x446, 0x430, 0x442, 0x44C]),
      (14, [0x447, 0x435, 0x442, 0x44B, 0x440, 0x43D, 0x430, 0x434, 0x446, 0x430, 0x442, 0x44C]),
      (15, [0x43F, 0x44F, 0x442, 0x43D, 0x430, 0x434, 0x446, 0x430, 0x442, 0x44C]),
      (16, [0x448, 0x435, 0x441, 0x442, 0x43D, 0x430, 0x434, 0x446, 0x430, 0x442, 0x44C]),
      (17, [0x441, 0x435, 0x43C, 0x43D, 0x430, 0x434, 0x446, 0x430, 0x442, 0x44C]),
      (18, [0x432, 0x43E, 0x441, 0x435, 0x43C, 0x43D, 0x430, 0x434, 0x446, 0x430, 0x442, 0x44C]),
      (19, [0x434, 0x435, 0x432, 0x44F, 0x442, 0x43D, 0x430, 0x434, 0x446, 0x430, 0x442, 0x44C]),
      (20, [0x434, 0x432, 0x430, 0x434, 0x446, 0x430, 0x442, 0x44C])]"
    unfolding numbers_def by (rule map_of_SomeD)
  then show ?thesis
    unfolding list.set insert_iff empty_iff prod.inject by (elim disjE conjE FalseE) simp_all
qed

lemma convert_soft_chars:
  "convert_number_to_words_soft n \<noteq> [] \<and>
   (\<forall>c\<in>set (convert_number_to_words_soft n).
      (0x430 \<le> c \<and> c \<le> 0x44F) \<or> (0x30 \<le> c \<and> c \<le> 0x39))"
proof (cases "numbers n")
  case None
  then show ?thesis
    using str_of_digits [of n] by (simp add: convert_number_to_words_soft_def)
next
  case (Some w)
  with numbers_letters [OF Some] show ?thesis
    by (simp add: convert_number_to_words_soft_def)
qed

lemma convert_soft_cases:
  assumes "ucd_ok db"
  shows "(\<forall>c\<in>set (convert_number_to_words_soft n). \<not> isdecimal db c) \<or>
         convert_number_to_words_soft n = str_of n"
proof (cases "numbers n")
  case None
  then show ?thesis by (simp add: convert_number_to_words_soft_def)
next
  case (Some w)
  with numbers_letters [OF Some] assms show ?thesis
    unfolding ucd_ok_def isdecimal_def by (simp add: convert_number_to_words_soft_def)
qed

lemma convert_soft_nospace:
  "convert_number_to_words_soft n \<noteq> [] \<and>
   (\<forall>c\<in>set (convert_number_to_words_soft n). \<not> isspace c)"
  using convert_soft_chars [of n] by (auto simp: isspace_def)

lemma convert_soft_no_marks:
  "set (convert_number_to_words_soft n) \<subseteq> - {0x2C, 0x2E, 0x21, 0x3F}"
  using convert_soft_chars [of n] by auto

lemma sublist_set: "sublist xs ys \<Longrightarrow> set xs \<subseteq> set ys"
  by (auto simp: sublist_def)

subsection \<open>The pauses\<close>

lemma ucd_ok_marks:
  assumes "ucd_ok db" and "pause_mark c \<or> c = 0x20"
  shows "\<not> isword db c" and "\<not> isdecimal db c"
proof -
  show "\<not> isword db c"
    using assms unfolding ucd_ok_def pause_mark_def by blast
  then show "\<not> isdecimal db c" using isdecimal_isword by blast
qed

lemma pause_mark_nospace: "pause_mark c \<Longrightarrow> \<not> isspace c"
  by (auto simp: pause_mark_def isspace_def)

lemma space_no_mark: "\<not> pause_mark 0x20"
  by (simp add: pause_mark_def)

lemma with_pauses_append: "with_pauses (u @ v) = with_pauses u @ with_pauses v"
  by (induction u) simp_all

lemma with_pauses_no_marks: "\<forall>c\<in>set w. \<not> pause_mark c \<Longrightarrow> with_pauses w = w"
  by (induction w) simp_all

lemma with_pauses_Nil [simp]: "with_pauses t = [] \<longleftrightarrow> t = []"
  by (cases t) simp_all

lemma hd_with_pauses [simp]: "hd (with_pauses t) = hd t"
  by (cases t) simp_all

lemma set_with_pauses: "set t \<subseteq> set (with_pauses t)"
  by (induction t) auto

text \<open>The four replacements of the pauses put a space behind every mark.\<close>

lemma replace_scan_single:
  "replace_scan [m] new t = concat (map (\<lambda>c. if c = m then new else [c]) t)"
  by (induction t) auto

lemma pauses_soft_with_pauses: "replace_all pauses_soft t = with_pauses t"
  by (induction t)
     (simp_all add: replace_all_def pauses_soft_def replace_def replace_scan_single pause_mark_def)

text \<open>The number step and the pauses do not meet: neither order changes the result.\<close>

lemma takeWhile_with_pauses:
  assumes "ucd_ok db"
  shows "takeWhile (isdecimal db) (with_pauses t) = takeWhile (isdecimal db) t"
  using ucd_ok_marks(2) [OF assms] by (induction t) auto

lemma dropWhile_with_pauses:
  assumes "ucd_ok db"
  shows "dropWhile (isdecimal db) (with_pauses t) = with_pauses (dropWhile (isdecimal db) t)"
  using ucd_ok_marks(2) [OF assms] by (induction t) auto

lemma scan_numbers_with_pauses:
  assumes ok: "ucd_ok db" and cv: "\<And>n. \<forall>c\<in>set (conv n). \<not> pause_mark c"
  shows "scan_numbers db conv p (with_pauses t) = with_pauses (scan_numbers db conv p t)"
proof (induction t arbitrary: p rule: length_induct)
  case (1 t)
  show ?case
  proof (cases t)
    case Nil
    then show ?thesis by simp
  next
    case t: (Cons c cs)
    define run where "run = takeWhile (isdecimal db) (c # cs)"
    define rest where "rest = dropWhile (isdecimal db) (c # cs)"
    have split: "c # cs = run @ rest" unfolding run_def rest_def by simp
    have tw: "takeWhile (isdecimal db) (with_pauses (c # cs)) = run"
      unfolding run_def by (rule takeWhile_with_pauses [OF ok])
    have dw: "dropWhile (isdecimal db) (with_pauses (c # cs)) = with_pauses rest"
      unfolding rest_def by (rule dropWhile_with_pauses [OF ok])
    show ?thesis
    proof (cases "\<not> p \<and> run \<noteq> [] \<and> (rest = [] \<or> \<not> isword db (hd rest))")
      case True
      have eq: "scan_numbers db conv p t =
          conv (digits_value db run) @ scan_numbers db conv True rest"
        unfolding t run_def rest_def
        using True unfolding run_def rest_def by (intro scan_numbers_match) simp_all
      have run_digits: "\<forall>c\<in>set run. isdecimal db c"
        unfolding run_def by (auto dest: set_takeWhileD)
      then have "\<forall>c\<in>set run. \<not> pause_mark c"
        using ucd_ok_marks(2) [OF ok] by blast
      then have wp: "with_pauses t = run @ with_pauses rest"
        unfolding t split by (simp add: with_pauses_append with_pauses_no_marks)
      have "scan_numbers db conv False (run @ with_pauses rest) =
          conv (digits_value db run) @ scan_numbers db conv True (with_pauses rest)"
        using True run_digits by (intro scan_numbers_run) simp_all
      moreover have "length rest < length t" using True split t
        by (metis length_append length_greater_0_conv less_add_same_cancel2 add.commute)
      then have "scan_numbers db conv True (with_pauses rest) =
          with_pauses (scan_numbers db conv True rest)"
        using "1.IH" by blast
      moreover have "with_pauses (conv (digits_value db run) @ scan_numbers db conv True rest) =
          conv (digits_value db run) @ with_pauses (scan_numbers db conv True rest)"
        using cv by (simp add: with_pauses_append with_pauses_no_marks)
      ultimately show ?thesis using True unfolding eq wp by (simp del: scan_numbers_simps)
    next
      case False
      have eq: "scan_numbers db conv p t = c # scan_numbers db conv (isword db c) cs"
        unfolding t using False unfolding run_def rest_def by (intro scan_numbers_skip) blast
      have ih: "scan_numbers db conv (isword db c) (with_pauses cs) =
          with_pauses (scan_numbers db conv (isword db c) cs)"
        using "1.IH" t by simp
      show ?thesis
      proof (cases "pause_mark c")
        case True
        note c = ucd_ok_marks [OF ok, of c] and sp = ucd_ok_marks [OF ok, of "0x20"]
        have "scan_numbers db conv p (c # 0x20 # with_pauses cs) =
            c # scan_numbers db conv (isword db c) (0x20 # with_pauses cs)"
          using c True by (intro scan_numbers_nondigit) simp
        also have "scan_numbers db conv (isword db c) (0x20 # with_pauses cs) =
            0x20 # scan_numbers db conv (isword db 0x20) (with_pauses cs)"
          using sp by (intro scan_numbers_nondigit) simp
        also have "isword db 0x20 = isword db c" using c sp True by simp
        finally have l: "scan_numbers db conv p (with_pauses t) =
            c # 0x20 # scan_numbers db conv (isword db c) (with_pauses cs)"
          unfolding t using True by (simp del: scan_numbers_simps)
        have r: "with_pauses (scan_numbers db conv p t) =
            c # 0x20 # with_pauses (scan_numbers db conv (isword db c) cs)"
          unfolding eq using True by (simp del: scan_numbers_simps)
        show ?thesis unfolding l r ih ..
      next
        case nm: False
        have "scan_numbers db conv p (c # with_pauses cs) =
            c # scan_numbers db conv (isword db c) (with_pauses cs)"
        proof (rule scan_numbers_skip)
          have "c # with_pauses cs = with_pauses (c # cs)" using nm by simp
          then show "p \<or> takeWhile (isdecimal db) (c # with_pauses cs) = [] \<or>
              dropWhile (isdecimal db) (c # with_pauses cs) \<noteq> [] \<and>
              isword db (hd (dropWhile (isdecimal db) (c # with_pauses cs)))"
            using False tw dw by (simp del: with_pauses.simps takeWhile.simps dropWhile.simps) 
        qed
        then have l: "scan_numbers db conv p (with_pauses t) =
            c # scan_numbers db conv (isword db c) (with_pauses cs)"
          unfolding t using nm by (simp del: scan_numbers_simps)
        have r: "with_pauses (scan_numbers db conv p t) =
            c # with_pauses (scan_numbers db conv (isword db c) cs)"
          unfolding eq using nm by (simp del: scan_numbers_simps)
        show ?thesis unfolding l r ih ..
      qed
    qed
  qed
qed

text \<open>
  The whitespace step takes the added spaces away again, when every mark of the text was
  followed by a space or ended the text.
\<close>

lemma rstrip_Cons:
  "\<not> isspace c \<or> (\<exists>x\<in>set cs. \<not> isspace x) \<Longrightarrow>
   rev (dropWhile isspace (rev (c # cs))) = c # rev (dropWhile isspace (rev cs))"
proof (cases "\<exists>x\<in>set cs. \<not> isspace x")
  case True
  then obtain x where "x \<in> set (rev cs)" "\<not> isspace x" by auto
  then have "dropWhile isspace (rev cs @ [c]) = dropWhile isspace (rev cs) @ [c]"
    by (rule dropWhile_append1)
  then show ?thesis by simp
next
  case False
  assume "\<not> isspace c \<or> (\<exists>x\<in>set cs. \<not> isspace x)"
  with False have c: "\<not> isspace c" by blast
  from False have "dropWhile isspace (rev cs) = []" by simp
  moreover have "dropWhile isspace (rev cs @ [c]) = [c]"
    using False c dropWhile_append2 [of "rev cs" isspace "[c]"] by simp
  ultimately show ?thesis by simp
qed

lemma collapse_rstrip_with_pauses:
  "spaced z \<Longrightarrow> paused z \<Longrightarrow>
   collapse_ws (rev (dropWhile isspace (rev (with_pauses z)))) = z"
proof (induction z)
  case Nil
  show ?case by simp
next
  case (Cons c cs)
  define rs where "rs = (\<lambda>x :: pystr. rev (dropWhile isspace (rev x)))"
  have rs_cons: "rs (a # x) = a # rs x" if "\<not> isspace a \<or> (\<exists>b\<in>set x. \<not> isspace b)" for a x
    unfolding rs_def using that by (rule rstrip_Cons)
  have rs_space: "rs [0x20] = []" unfolding rs_def by (simp add: isspace_space)
  have began: "rs (with_pauses x) \<noteq> [] \<and> \<not> isspace (hd (rs (with_pauses x))) \<and>
      (\<exists>b\<in>set (with_pauses x). \<not> isspace b)" if "x \<noteq> []" "\<not> isspace (hd x)" for x
  proof -
    from that obtain a as where x: "x = a # as" and a: "\<not> isspace a" by (cases x) auto
    obtain w where w: "with_pauses x = a # w" unfolding x by (cases "pause_mark a") simp_all
    have "rs (a # w) = a # rs w" using a by (intro rs_cons) simp
    then show ?thesis unfolding w using a by simp
  qed
  have dropped: "dropWhile isspace (rs (with_pauses x)) = rs (with_pauses x)"
    if "x \<noteq> []" "\<not> isspace (hd x)" for x
    using began [OF that] by (cases "rs (with_pauses x)") simp_all
  have pcs: "paused cs" using Cons.prems(2) by simp
  have goal: "collapse_ws (rs (with_pauses (c # cs))) = c # cs"
  proof (cases "isspace c")
    case True
    with Cons.prems(1) have c: "c = 0x20" and ne: "cs \<noteq> []" and h: "\<not> isspace (hd cs)"
      and s: "spaced cs" by simp_all
    have ih: "collapse_ws (rs (with_pauses cs)) = cs"
      using Cons.IH [OF s pcs] unfolding rs_def .
    have "with_pauses (c # cs) = 0x20 # with_pauses cs" using c by (simp add: space_no_mark)
    moreover have "rs (0x20 # with_pauses cs) = 0x20 # rs (with_pauses cs)"
      using began [OF ne h] by (intro rs_cons) blast
    moreover have "collapse_ws (0x20 # rs (with_pauses cs)) =
        0x20 # collapse_ws (dropWhile isspace (rs (with_pauses cs)))"
      by (simp add: isspace_space)
    ultimately show ?thesis unfolding dropped [OF ne h] ih using c by simp
  next
    case False
    with Cons.prems(1) have s: "spaced cs" by simp
    have ih: "collapse_ws (rs (with_pauses cs)) = cs"
      using Cons.IH [OF s pcs] unfolding rs_def .
    show ?thesis
    proof (cases "pause_mark c")
      case nm: False
      have "with_pauses (c # cs) = c # with_pauses cs" using nm by simp
      moreover have "rs (c # with_pauses cs) = c # rs (with_pauses cs)"
        using False by (intro rs_cons) simp
      moreover have "collapse_ws (c # rs (with_pauses cs)) = c # collapse_ws (rs (with_pauses cs))"
        using False by simp
      ultimately show ?thesis unfolding ih by simp
    next
      case True
      have w0: "with_pauses (c # cs) = c # 0x20 # with_pauses cs" using True by simp
      have r: "rs (c # 0x20 # with_pauses cs) = c # rs (0x20 # with_pauses cs)"
        using False by (intro rs_cons) simp
      show ?thesis
      proof (cases cs)
        case Nil
        have "collapse_ws [c] = [c]" using False by simp
        then show ?thesis unfolding w0 r unfolding Nil by (simp add: rs_space)
      next
        case (Cons a as)
        with Cons.prems(2) True have a: "a = 0x20" by simp
        with s Cons have ne: "as \<noteq> []" and h: "\<not> isspace (hd as)"
          by (simp_all add: isspace_space)
        have w: "with_pauses cs = 0x20 # with_pauses as"
          unfolding Cons a by (simp add: space_no_mark)
        have r1: "rs (0x20 # with_pauses as) = 0x20 # rs (with_pauses as)"
          using began [OF ne h] by (intro rs_cons) blast
        have r2: "rs (0x20 # 0x20 # with_pauses as) = 0x20 # rs (0x20 # with_pauses as)"
          using began [OF ne h] by (intro rs_cons) auto
        have d: "dropWhile isspace (rs (with_pauses as)) = rs (with_pauses as)"
          using dropped [OF ne h] .
        have "collapse_ws (0x20 # rs (with_pauses as)) = cs"
          using ih unfolding w r1 .
        moreover have "collapse_ws (0x20 # rs (with_pauses as)) =
            0x20 # collapse_ws (dropWhile isspace (rs (with_pauses as)))"
          by (simp add: isspace_space)
        ultimately have tail: "0x20 # collapse_ws (rs (with_pauses as)) = cs"
          unfolding d by simp
        have "collapse_ws (c # 0x20 # 0x20 # rs (with_pauses as)) =
            c # 0x20 # collapse_ws (dropWhile isspace (0x20 # rs (with_pauses as)))"
          using False by (simp add: isspace_space)
        also have "dropWhile isspace (0x20 # rs (with_pauses as)) = rs (with_pauses as)"
          using d by (simp add: isspace_space)
        finally have "collapse_ws (c # 0x20 # 0x20 # rs (with_pauses as)) = c # cs"
          using tail by simp
        then show ?thesis unfolding w0 r unfolding w r2 r1 .
      qed
    qed
  qed
  then show ?case unfolding rs_def .
qed

lemma policy_with_pauses:
  assumes "spaced z" and "z = [] \<or> \<not> isspace (hd z)" and "paused z"
  shows "collapse_ws (strip (with_pauses z)) = z"
proof -
  have "dropWhile isspace (with_pauses z) = with_pauses z"
    using assms(2) by (cases z) auto
  then show ?thesis
    unfolding strip_def using collapse_rstrip_with_pauses [OF assms(1,3)] by simp
qed

text \<open>
  Behind the pauses only "dr." and "g." of the abbreviations can be found: every full
  stop is followed by a space. The pauses neither make nor break an occurrence of these
  two.
\<close>

lemma stop_then_space: "sublist [0x2E, c] (with_pauses z) \<Longrightarrow> c = 0x20"
  by (induction z) (auto simp: sublist_Cons_right pause_mark_def split: if_splits)

lemma dotted_absent:
  assumes "sublist [0x2E, c] pat" and "c \<noteq> 0x20"
  shows "\<not> sublist pat (with_pauses z)"
proof
  assume "sublist pat (with_pauses z)"
  with assms(1) have "sublist [0x2E, c] (with_pauses z)"
    by (rule sublist_order.order.trans)
  with stop_then_space assms(2) show False by blast
qed

lemma with_pauses_prefix_reflect:
  assumes "0x20 \<notin> set pat" and "\<forall>c\<in>set (butlast pat). \<not> pause_mark c"
  shows "prefix pat (with_pauses t) \<Longrightarrow> prefix pat t"
  using assms
proof (induction t arbitrary: pat)
  case Nil
  then show ?case by simp
next
  case (Cons a t)
  show ?case
  proof (cases pat)
    case Nil
    then show ?thesis by simp
  next
    case pat: (Cons b pat')
    show ?thesis
    proof (cases "pat' = []")
      case True
      with Cons.prems(1) pat show ?thesis by (simp split: if_splits)
    next
      case False
      with Cons.prems(3) pat have nb: "\<not> pause_mark b" by simp
      from Cons.prems(1) pat have ab: "a = b" by (simp split: if_splits)
      with nb Cons.prems(1) pat have "prefix pat' (with_pauses t)" by simp
      moreover have "0x20 \<notin> set pat'" using Cons.prems(2) pat by simp
      moreover have "\<forall>c\<in>set (butlast pat'). \<not> pause_mark c"
        using Cons.prems(3) pat False by simp
      ultimately have "prefix pat' t" by (rule Cons.IH)
      with ab pat show ?thesis by simp
    qed
  qed
qed

lemma with_pauses_sublist_reflect:
  assumes "pat \<noteq> []" and "0x20 \<notin> set pat" and "\<forall>c\<in>set (butlast pat). \<not> pause_mark c"
  shows "sublist pat (with_pauses t) \<Longrightarrow> sublist pat t"
proof (induction t)
  case Nil
  then show ?case by simp
next
  case (Cons a t)
  have hd: "hd pat \<noteq> 0x20" using assms(1,2) by (cases pat) auto
  have "prefix pat (with_pauses (a # t)) \<or> sublist pat (with_pauses t)"
  proof (cases "pause_mark a")
    case True
    with Cons.prems have "prefix pat (a # 0x20 # with_pauses t) \<or>
        prefix pat (0x20 # with_pauses t) \<or> sublist pat (with_pauses t)"
      by (simp add: sublist_Cons_right)
    moreover have "\<not> prefix pat (0x20 # with_pauses t)"
      using hd assms(1) by (cases pat) auto
    ultimately show ?thesis using True by simp
  next
    case False
    with Cons.prems show ?thesis by (simp add: sublist_Cons_right)
  qed
  then show ?case
  proof
    assume "prefix pat (with_pauses (a # t))"
    then have "prefix pat (a # t)" by (rule with_pauses_prefix_reflect [OF assms(2,3)])
    then show ?thesis by (rule prefix_imp_sublist)
  next
    assume "sublist pat (with_pauses t)"
    then have "sublist pat t" by (rule Cons.IH)
    then show ?thesis by (simp add: sublist_Cons_right)
  qed
qed

lemma abbreviations_soft_absent:
  assumes "\<not> sublist abbr_dr z" and "\<not> sublist abbr_g z"
  shows "replace_all abbreviations_soft (with_pauses z) = with_pauses z"
proof -
  have td: "\<not> sublist abbr_td (with_pauses z)"
    by (rule dotted_absent [of "0x434"]) (simp_all add: abbr_td_def sublist_Cons_right)
  have tp: "\<not> sublist abbr_tp (with_pauses z)"
    by (rule dotted_absent [of "0x43F"]) (simp_all add: abbr_tp_def sublist_Cons_right)
  have itd: "\<not> sublist abbr_itd (with_pauses z)"
    by (rule dotted_absent [of "0x434"]) (simp_all add: abbr_itd_def sublist_Cons_right)
  have te: "\<not> sublist abbr_te (with_pauses z)"
    by (rule dotted_absent [of "0x435"]) (simp_all add: abbr_te_def sublist_Cons_right)
  have dr: "\<not> sublist abbr_dr (with_pauses z)"
    using assms(1) with_pauses_sublist_reflect [of abbr_dr z]
    by (auto simp: abbr_dr_def pause_mark_def)
  have g: "\<not> sublist abbr_g (with_pauses z)"
    using assms(2) with_pauses_sublist_reflect [of abbr_g z]
    by (auto simp: abbr_g_def pause_mark_def)
  have ne: "abbr_td \<noteq> []" "abbr_tp \<noteq> []" "abbr_itd \<noteq> []" "abbr_te \<noteq> []" "abbr_dr \<noteq> []"
    "abbr_g \<noteq> []"
    by (simp_all add: abbr_td_def abbr_tp_def abbr_itd_def abbr_te_def abbr_dr_def abbr_g_def)
  show ?thesis
    unfolding replace_all_def abbreviations_soft_def
    using ne td tp itd te dr g by (simp add: replace_def replace_scan_absent_sublist)
qed

text \<open>The number step keeps every mark in front of its space.\<close>

lemma paused_append_no_marks: "\<forall>c\<in>set w. \<not> pause_mark c \<Longrightarrow> paused (w @ z) = paused z"
  by (induction w) simp_all

lemma paused_suffix: "paused (u @ v) \<Longrightarrow> paused v"
  by (induction u) simp_all

lemma scan_numbers_paused:
  assumes ok: "ucd_ok db" and cv: "\<And>n. \<forall>c\<in>set (conv n). \<not> pause_mark c"
  shows "paused t \<Longrightarrow> paused (scan_numbers db conv p t)"
proof (induction t arbitrary: p rule: length_induct)
  case (1 t)
  show ?case
  proof (cases t)
    case Nil
    then show ?thesis by simp
  next
    case t: (Cons c cs)
    define run where "run = takeWhile (isdecimal db) (c # cs)"
    define rest where "rest = dropWhile (isdecimal db) (c # cs)"
    have split: "c # cs = run @ rest" unfolding run_def rest_def by simp
    show ?thesis
    proof (cases "\<not> p \<and> run \<noteq> [] \<and> (rest = [] \<or> \<not> isword db (hd rest))")
      case True
      have eq: "scan_numbers db conv p t =
          conv (digits_value db run) @ scan_numbers db conv True rest"
        unfolding t run_def rest_def
        using True unfolding run_def rest_def by (intro scan_numbers_match) simp_all
      have "paused rest" using "1.prems" paused_suffix unfolding t split by blast
      moreover have "length rest < length t" using True split t
        by (metis length_append length_greater_0_conv less_add_same_cancel2 add.commute)
      ultimately have "paused (scan_numbers db conv True rest)" using "1.IH" by blast
      then show ?thesis unfolding eq using paused_append_no_marks [OF cv] by simp
    next
      case False
      have eq: "scan_numbers db conv p t = c # scan_numbers db conv (isword db c) cs"
        unfolding t using False unfolding run_def rest_def by (intro scan_numbers_skip) blast
      have pcs: "paused cs" using "1.prems" unfolding t by simp
      then have ih: "paused (scan_numbers db conv (isword db c) cs)" using "1.IH" t by simp
      have "scan_numbers db conv (isword db c) cs = [] \<or>
          hd (scan_numbers db conv (isword db c) cs) = 0x20" if "pause_mark c"
      proof (cases cs)
        case Nil
        then show ?thesis by simp
      next
        case (Cons a as)
        with "1.prems" that have a: "a = 0x20" unfolding t by simp
        have "scan_numbers db conv (isword db c) (0x20 # as) =
            0x20 # scan_numbers db conv (isword db 0x20) as"
          using ucd_ok_marks(2) [OF ok, of "0x20"] by (intro scan_numbers_nondigit) simp
        then show ?thesis unfolding Cons a by (simp del: scan_numbers_simps)
      qed
      with ih show ?thesis unfolding eq by (simp del: scan_numbers_simps)
    qed
  qed
qed

text \<open>
  The number step makes no occurrence of a pattern whose last character is in no
  replacement, when no replacement ends like the pattern begins and when what is behind
  the first character of the pattern can only have been copied from the text.
\<close>

lemma scan_numbers_prefix_reflect:
  assumes cv: "\<And>n. conv n \<noteq> [] \<and> hd (conv n) \<notin> set pat"
    and nd: "\<forall>c\<in>set pat. \<not> isdecimal db c"
  shows "prefix pat (scan_numbers db conv q u) \<Longrightarrow> prefix pat u"
  using assms
proof (induction pat arbitrary: q u)
  case Nil
  show ?case by simp
next
  case (Cons a pat)
  show ?case
  proof (cases u)
    case Nil
    with Cons.prems(1) show ?thesis by simp
  next
    case u: (Cons c u')
    define n where "n = digits_value db (takeWhile (isdecimal db) (c # u'))"
    from scan_numbers_cases [of db conv q c u']
    have "scan_numbers db conv q u =
            conv n @ scan_numbers db conv True (dropWhile (isdecimal db) (c # u'))
        \<or> scan_numbers db conv q u = c # scan_numbers db conv (isword db c) u'"
      unfolding u n_def by blast
    then show ?thesis
    proof
      assume "scan_numbers db conv q u =
          conv n @ scan_numbers db conv True (dropWhile (isdecimal db) (c # u'))"
      with Cons.prems(1) have "prefix (a # pat) (conv n @
          scan_numbers db conv True (dropWhile (isdecimal db) (c # u')))" by simp
      moreover from Cons.prems(2) [of n] obtain b w where "conv n = b # w" "b \<noteq> a"
        by (cases "conv n") auto
      ultimately show ?thesis by simp
    next
      assume eq: "scan_numbers db conv q u = c # scan_numbers db conv (isword db c) u'"
      with Cons.prems(1) have ac: "a = c"
        and p: "prefix pat (scan_numbers db conv (isword db c) u')" by simp_all
      have "prefix pat u'"
        using p
      proof (rule Cons.IH)
        show "conv n \<noteq> [] \<and> hd (conv n) \<notin> set pat" for n
          using Cons.prems(2) [of n] by simp
        show "\<forall>c\<in>set pat. \<not> isdecimal db c" using Cons.prems(3) by simp
      qed
      with ac show ?thesis unfolding u by simp
    qed
  qed
qed

lemma sublist_straddle:
  assumes "pat \<noteq> []" and "last pat \<notin> set w" and "w = [] \<or> last w \<notin> set (butlast pat)"
    and "\<not> sublist pat z"
  shows "\<not> sublist pat (w @ z)"
proof
  assume "sublist pat (w @ z)"
  then consider "sublist pat w" | "sublist pat z"
    | xs1 xs2 where "pat = xs1 @ xs2" "suffix xs1 w" "prefix xs2 z"
    unfolding sublist_append by blast
  then show False
  proof cases
    case 1
    then have "set pat \<subseteq> set w" by (rule sublist_set)
    with assms(1,2) show False using last_in_set by blast
  next
    case 2
    with assms(4) show False by simp
  next
    case 3
    show False
    proof (cases "xs2 = []")
      case True
      with 3 have "sublist pat w" by (simp add: suffix_imp_sublist)
      then have "set pat \<subseteq> set w" by (rule sublist_set)
      with assms(1,2) show False using last_in_set by blast
    next
      case x2: False
      show False
      proof (cases "xs1 = []")
        case True
        with 3 have "sublist pat z" by (simp add: prefix_imp_sublist)
        with assms(4) show False by simp
      next
        case False
        from 3(2) obtain v where w: "w = v @ xs1" by (auto simp: suffix_def)
        then have "last w = last xs1" using False by simp
        moreover have "butlast pat = xs1 @ butlast xs2"
          using 3(1) x2 by (simp add: butlast_append)
        ultimately have "last w \<in> set (butlast pat)" using False by simp
        moreover have "w \<noteq> []" using w False by simp
        ultimately show False using assms(3) by simp
      qed
    qed
  qed
qed

lemma scan_numbers_creates_none:
  assumes ne: "pat \<noteq> []"
    and cv: "\<And>n. conv n \<noteq> [] \<and> hd (conv n) \<notin> set (tl pat) \<and> last pat \<notin> set (conv n) \<and>
               last (conv n) \<notin> set (butlast pat)"
    and nd: "\<forall>c\<in>set (tl pat). \<not> isdecimal db c"
  shows "\<not> sublist pat t \<Longrightarrow> \<not> sublist pat (scan_numbers db conv p t)"
proof (induction t arbitrary: p rule: length_induct)
  case (1 t)
  show ?case
  proof (cases t)
    case Nil
    with ne show ?thesis by simp
  next
    case t: (Cons c cs)
    define n where "n = digits_value db (takeWhile (isdecimal db) (c # cs))"
    let ?rest = "dropWhile (isdecimal db) (c # cs)"
    have "scan_numbers db conv p t = conv n @ scan_numbers db conv True ?rest
        \<and> takeWhile (isdecimal db) (c # cs) \<noteq> []
        \<or> scan_numbers db conv p t = c # scan_numbers db conv (isword db c) cs"
      unfolding t n_def using scan_numbers_cases [of db conv p c cs] by blast
    then show ?thesis
    proof
      assume a: "scan_numbers db conv p t = conv n @ scan_numbers db conv True ?rest
        \<and> takeWhile (isdecimal db) (c # cs) \<noteq> []"
      have split: "c # cs = takeWhile (isdecimal db) (c # cs) @ ?rest" by simp
      with a have "length ?rest < length t" unfolding t
        by (metis length_append length_greater_0_conv less_add_same_cancel2 add.commute)
      moreover have "\<not> sublist pat ?rest"
      proof
        assume "sublist pat ?rest"
        then have "sublist pat (takeWhile (isdecimal db) (c # cs) @ ?rest)"
          by (simp only: sublist_append simp_thms)
        then have "sublist pat (c # cs)" by (simp only: takeWhile_dropWhile_id)
        then show False using "1.prems" unfolding t by simp
      qed
      ultimately have "\<not> sublist pat (scan_numbers db conv True ?rest)"
        using "1.IH" by blast
      then have "\<not> sublist pat (conv n @ scan_numbers db conv True ?rest)"
        using cv [of n] ne by (intro sublist_straddle) simp_all
      with a show ?thesis by simp
    next
      assume a: "scan_numbers db conv p t = c # scan_numbers db conv (isword db c) cs"
      have ncs: "\<not> sublist pat cs" using "1.prems" unfolding t by (simp add: sublist_Cons_right)
      then have ih: "\<not> sublist pat (scan_numbers db conv (isword db c) cs)"
        using "1.IH" t by simp
      have "\<not> prefix pat (c # scan_numbers db conv (isword db c) cs)"
      proof
        assume pr: "prefix pat (c # scan_numbers db conv (isword db c) cs)"
        from ne obtain b pat' where pat: "pat = b # pat'" by (cases pat) auto
        with pr have bc: "b = c" and "prefix pat' (scan_numbers db conv (isword db c) cs)"
          by simp_all
        then have "prefix pat' cs"
        proof (rule_tac scan_numbers_prefix_reflect [where conv = conv and db = db])
          show "conv n \<noteq> [] \<and> hd (conv n) \<notin> set pat'" for n using cv [of n] pat by simp
          show "\<forall>c\<in>set pat'. \<not> isdecimal db c" using nd pat by simp
        qed
        with bc pat have "prefix pat (c # cs)" by simp
        then have "sublist pat t" unfolding t by (rule prefix_imp_sublist)
        with "1.prems" show False by simp
      qed
      with ih a show ?thesis by (simp add: sublist_Cons_right)
    qed
  qed
qed

text \<open>What the replacements of soft\_female\_tts\_server.py begin and end with.\<close>

lemma convert_soft_ends:
  "hd (convert_number_to_words_soft n) \<noteq> 0x440 \<and>
   hd (convert_number_to_words_soft n) \<noteq> 0x2E \<and>
   last (convert_number_to_words_soft n) \<noteq> 0x433 \<and>
   last (convert_number_to_words_soft n) \<noteq> 0x434 \<and>
   last (convert_number_to_words_soft n) \<noteq> 0x440"
proof (cases "numbers n")
  case None
  from str_of_digits [of n] have "hd (str_of n) \<in> set (str_of n)" "last (str_of n) \<in> set (str_of n)"
    by simp_all
  with str_of_digits [of n] have "0x30 \<le> hd (str_of n)" "hd (str_of n) \<le> 0x39"
    "last (str_of n) \<le> 0x39" by auto
  with None show ?thesis by (auto simp: convert_number_to_words_soft_def)
next
  case (Some w)
  from numbers_letters [OF Some] have "w \<noteq> []" "\<forall>c\<in>set w. 0x430 \<le> c"
    "hd w \<noteq> 0x440" "last w \<noteq> 0x433" "last w \<noteq> 0x434" "last w \<noteq> 0x440"
    by simp_all
  moreover from this have "hd w \<in> set w" by simp
  ultimately have "0x430 \<le> hd w" "hd w \<noteq> 0x440" "last w \<noteq> 0x433" "last w \<noteq> 0x434"
    "last w \<noteq> 0x440" by blast+
  then show ?thesis using Some by (auto simp: convert_number_to_words_soft_def)
qed

lemma convert_soft_no_pause_marks:
  "\<forall>c\<in>set (convert_number_to_words_soft n). \<not> pause_mark c"
  using convert_soft_no_marks [of n] by (auto simp: pause_mark_def)

text \<open>The number step does not add digits to a text.\<close>

lemma digits_value_bound:
  assumes "ucd_ok db"
  shows "digits_value db ds < 10 ^ length ds"
proof (induction ds rule: rev_induct)
  case Nil
  show ?case by (simp add: digits_value_def)
next
  case (snoc c ds)
  have "(case todecimal db c of Some d \<Rightarrow> d | None \<Rightarrow> 0) < 10"
    using assms unfolding ucd_ok_def by (cases "todecimal db c") auto
  with snoc show ?case by (simp add: digits_value_snoc)
qed

lemma length_str_of: "n < 10 ^ k \<Longrightarrow> 0 < k \<Longrightarrow> length (str_of n) \<le> k"
proof (induction n arbitrary: k rule: str_of.induct)
  case (1 n)
  show ?case
  proof (cases "n < 10")
    case True
    then show ?thesis using "1.prems"(2) by (subst str_of.simps) simp
  next
    case False
    from "1.prems" obtain j where k: "k = Suc j" by (cases k) auto
    from False "1.prems"(1) have "0 < j" unfolding k by (cases j) auto
    moreover have "n div 10 < 10 ^ j" using "1.prems"(1) unfolding k by (simp add: less_mult_imp_div_less mult.commute)
    ultimately have "length (str_of (n div 10)) \<le> j" using "1.IH" [OF False] by blast
    then show ?thesis using False unfolding k by (subst str_of.simps) simp
  qed
qed

lemma convert_soft_count:
  assumes "ucd_ok db" and "ds \<noteq> []"
  shows "length (filter (isdecimal db) (convert_number_to_words_soft (digits_value db ds))) \<le>
         length ds"
proof -
  from convert_soft_cases [OF assms(1), of "digits_value db ds"] show ?thesis
  proof
    assume "\<forall>c\<in>set (convert_number_to_words_soft (digits_value db ds)). \<not> isdecimal db c"
    then have "filter (isdecimal db) (convert_number_to_words_soft (digits_value db ds)) = []"
      by (simp add: filter_empty_conv)
    then show ?thesis by simp
  next
    assume e: "convert_number_to_words_soft (digits_value db ds) = str_of (digits_value db ds)"
    have "length (str_of (digits_value db ds)) \<le> length ds"
      using digits_value_bound [OF assms(1), of ds] assms(2) by (intro length_str_of) simp_all
    moreover have "length (filter (isdecimal db) (str_of (digits_value db ds))) \<le>
        length (str_of (digits_value db ds))"
      by (rule length_filter_le)
    ultimately have "length (filter (isdecimal db) (str_of (digits_value db ds))) \<le> length ds"
      by linarith
    then show ?thesis unfolding e .
  qed
qed

lemma scan_numbers_count:
  assumes cv: "\<And>ds. ds \<noteq> [] \<Longrightarrow>
      length (filter (isdecimal db) (conv (digits_value db ds))) \<le> length ds"
  shows "length (filter (isdecimal db) (scan_numbers db conv p t)) \<le>
         length (filter (isdecimal db) t)"
proof (induction t arbitrary: p rule: length_induct)
  case (1 t)
  show ?case
  proof (cases t)
    case Nil
    then show ?thesis by simp
  next
    case t: (Cons c cs)
    define run where "run = takeWhile (isdecimal db) (c # cs)"
    define rest where "rest = dropWhile (isdecimal db) (c # cs)"
    have split: "c # cs = run @ rest" unfolding run_def rest_def by simp
    have run: "filter (isdecimal db) run = run"
      unfolding run_def by (auto simp: filter_id_conv dest: set_takeWhileD)
    have count: "length (filter (isdecimal db) t) =
        length run + length (filter (isdecimal db) rest)"
      unfolding t split using run by simp
    show ?thesis
    proof (cases "\<not> p \<and> run \<noteq> [] \<and> (rest = [] \<or> \<not> isword db (hd rest))")
      case True
      have eq: "scan_numbers db conv p t =
          conv (digits_value db run) @ scan_numbers db conv True rest"
        unfolding t run_def rest_def
        using True unfolding run_def rest_def by (intro scan_numbers_match) simp_all
      have "length rest < length t" using True split t
        by (metis length_append length_greater_0_conv less_add_same_cancel2 add.commute)
      then have "length (filter (isdecimal db) (scan_numbers db conv True rest)) \<le>
          length (filter (isdecimal db) rest)"
        using "1.IH" by blast
      moreover have "length (filter (isdecimal db) (conv (digits_value db run))) \<le> length run"
        using True by (intro cv) simp
      ultimately show ?thesis unfolding eq count by simp
    next
      case False
      have eq: "scan_numbers db conv p t = c # scan_numbers db conv (isword db c) cs"
        unfolding t using False unfolding run_def rest_def by (intro scan_numbers_skip) blast
      have "length (filter (isdecimal db) (scan_numbers db conv (isword db c) cs)) \<le>
          length (filter (isdecimal db) cs)"
        using "1.IH" t by simp
      then show ?thesis unfolding eq unfolding t by (simp del: scan_numbers_simps)
    qed
  qed
qed

lemma filter_with_pauses:
  assumes "ucd_ok db"
  shows "filter (isdecimal db) (with_pauses t) = filter (isdecimal db) t"
  using ucd_ok_marks(2) [OF assms] by (induction t) auto

text \<open>
  The preprocessing of a text within the whitespace policy, with every mark followed by
  a space or ending the text and without the abbreviations "dr." and "g.": the numbers
  are converted and a space is put behind every mark.
\<close>

lemma soft_on_paused_text:
  assumes ok: "ucd_ok db" and ws: "collapse_ws (strip t) = t"
    and digits: "length (filter (isdecimal db) t) \<le> max_str_digits"
    and dr: "\<not> sublist abbr_dr t" and g: "\<not> sublist abbr_g t"
  shows "preprocess_russian_text_soft db t =
           Inr (with_pauses (scan_numbers db convert_number_to_words_soft False t))"
proof -
  have "length (filter (isdecimal db) (with_pauses t)) \<le> max_str_digits"
    using digits by (simp add: filter_with_pauses [OF ok])
  then have "sub_numbers db convert_number_to_words_soft (with_pauses t) =
      Inr (scan_numbers db convert_number_to_words_soft False (with_pauses t))"
    by (rule sub_numbers_returns)
  also have "scan_numbers db convert_number_to_words_soft False (with_pauses t) =
      with_pauses (scan_numbers db convert_number_to_words_soft False t)"
    using ok convert_soft_no_pause_marks by (rule scan_numbers_with_pauses)
  finally show ?thesis
    unfolding preprocess_russian_text_soft_def ws pauses_soft_with_pauses
      abbreviations_soft_absent [OF dr g] .
qed

lemma soft_idempotent:
  assumes ok: "ucd_ok db" and ws: "collapse_ws (strip t) = t"
    and digits: "length (filter (isdecimal db) t) \<le> max_str_digits"
    and p: "paused t" and dr: "\<not> sublist abbr_dr t" and g: "\<not> sublist abbr_g t"
  shows "\<exists>y. preprocess_russian_text_soft db t = Inr y \<and>
             preprocess_russian_text_soft db y = Inr y"
proof -
  define z where "z = scan_numbers db convert_number_to_words_soft False t"
  define y where "y = with_pauses z"
  have first: "preprocess_russian_text_soft db t = Inr y"
    unfolding y_def z_def using ok ws digits dr g by (rule soft_on_paused_text)
  from policy_spaced [OF ws] have st: "spaced t" and ht: "t = [] \<or> \<not> isspace (hd t)"
    by simp_all
  have sz: "spaced z"
    unfolding z_def using ok convert_soft_nospace st by (rule scan_numbers_spaced)
  have hz: "z = [] \<or> \<not> isspace (hd z)"
  proof (cases "t = []")
    case True
    then show ?thesis by (simp add: z_def)
  next
    case False
    with ht have "\<not> isspace (hd t)" by simp
    with scan_numbers_hd_nospace [where conv = convert_number_to_words_soft and t = t and db = db
        and p = False] convert_soft_nospace False
    show ?thesis unfolding z_def by blast
  qed
  have pz: "paused z"
    unfolding z_def using ok convert_soft_no_pause_marks p by (rule scan_numbers_paused)
  have ends: "convert_number_to_words_soft n \<noteq> []" "0x2E \<notin> set (convert_number_to_words_soft n)"
    for n
    using convert_soft_nospace [of n] convert_soft_no_marks [of n] by auto
  have nd: "\<not> isdecimal db 0x440" "\<not> isdecimal db 0x2E"
    using ok ucd_ok_marks(2) [OF ok, of "0x2E"]
    unfolding ucd_ok_def isdecimal_def pause_mark_def by simp_all
  have drz: "\<not> sublist abbr_dr z"
    unfolding z_def
    by (rule scan_numbers_creates_none)
       (use dr nd ends convert_soft_ends in \<open>simp_all add: abbr_dr_def\<close>)
  have gz: "\<not> sublist abbr_g z"
    unfolding z_def
    by (rule scan_numbers_creates_none)
       (use g nd ends convert_soft_ends in \<open>simp_all add: abbr_g_def\<close>)
  have wsy: "collapse_ws (strip (with_pauses z)) = z"
    using sz hz pz by (rule policy_with_pauses)
  have county: "length (filter (isdecimal db) (with_pauses z)) \<le> max_str_digits"
  proof -
    have "length (filter (isdecimal db) z) \<le> length (filter (isdecimal db) t)"
      unfolding z_def using convert_soft_count [OF ok] by (rule scan_numbers_count)
    with digits show ?thesis by (simp add: filter_with_pauses [OF ok])
  qed
  have "sub_numbers db convert_number_to_words_soft (with_pauses z) =
      Inr (scan_numbers db convert_number_to_words_soft False (with_pauses z))"
    using county by (rule sub_numbers_returns)
  also have "scan_numbers db convert_number_to_words_soft False (with_pauses z) =
      with_pauses (scan_numbers db convert_number_to_words_soft False z)"
    using ok convert_soft_no_pause_marks by (rule scan_numbers_with_pauses)
  also have "scan_numbers db convert_number_to_words_soft False z = z"
    unfolding z_def using ok convert_soft_cases [OF ok] by (rule scan_numbers_idem)
  finally have "preprocess_russian_text_soft db y = Inr y"
    unfolding preprocess_russian_text_soft_def y_def
    unfolding wsy pauses_soft_with_pauses abbreviations_soft_absent [OF drz gz] .
  with first show ?thesis by blast
qed

text \<open>
  C3, as the code has it. For a text that the whitespace step leaves unchanged, of at
  most 500 characters, in which every comma, full stop, exclamation mark and question
  mark is followed by a space or ends the text, and which holds neither of the
  abbreviations "dr." and "g.", preprocessing returns a text and preprocessing that text
  returns it again.
\<close>

theorem soft_idempotent_on_paused_text:
  assumes "ucd_ok db" and "collapse_ws (strip t) = t" and "length t \<le> 500"
    and "paused t" and "\<not> sublist abbr_dr t" and "\<not> sublist abbr_g t"
  shows "\<exists>y. preprocess_russian_text_soft db t = Inr y \<and>
             preprocess_russian_text_soft db y = Inr y"
proof -
  have "length (filter (isdecimal db) t) \<le> length t" by (rule length_filter_le)
  with assms(3) have "length (filter (isdecimal db) t) \<le> max_str_digits"
    unfolding max_str_digits_def by linarith
  with assms(1,2) show ?thesis using assms(4,5,6) by (rule soft_idempotent)
qed

lemmas text_simps =
  strip_def isspace_def replace_all_def pauses_soft_def abbreviations_soft_def replace_def
  abbr_td_def abbr_tp_def abbr_itd_def abbr_te_def abbr_dr_def abbr_g_def
  full_td_def full_tp_def full_itd_def full_te_def full_dr_def full_g_def
  preprocess_russian_text_soft_def

text \<open>
  C3 as stated fails. The text "a,b" is within the whitespace policy and shorter than
  500 characters; preprocessing gives "a, b" and preprocessing that gives "a," followed
  by two spaces and "b", because a space is put behind every comma whether or not one
  is there. And "g. a" becomes the expansion of "g." followed by two spaces and "a", the
  space behind the full stop staying behind the expansion, which preprocessing again
  turns into the expansion, one space and "a"; "dr. a" goes the same way.
\<close>

theorem soft_idempotence_counterexample:
  "collapse_ws (strip [0x61, 0x2C, 0x62]) = [0x61, 0x2C, 0x62] \<and>
   length [0x61, 0x2C, 0x62 :: nat] \<le> 500 \<and>
   preprocess_russian_text_soft ascii_russian [0x61, 0x2C, 0x62] = Inr [0x61, 0x2C, 0x20, 0x62] \<and>
   preprocess_russian_text_soft ascii_russian [0x61, 0x2C, 0x20, 0x62] =
     Inr [0x61, 0x2C, 0x20, 0x20, 0x62] \<and>
   collapse_ws (strip [0x433, 0x2E, 0x20, 0x61]) = [0x433, 0x2E, 0x20, 0x61] \<and>
   paused [0x433, 0x2E, 0x20, 0x61] \<and>
   preprocess_russian_text_soft ascii_russian [0x433, 0x2E, 0x20, 0x61] =
     Inr [0x433, 0x43E, 0x434, 0x20, 0x20, 0x61] \<and>
   preprocess_russian_text_soft ascii_russian [0x433, 0x43E, 0x434, 0x20, 0x20, 0x61] =
     Inr [0x433, 0x43E, 0x434, 0x20, 0x61] \<and>
   collapse_ws (strip [0x434, 0x440, 0x2E, 0x20, 0x61]) = [0x434, 0x440, 0x2E, 0x20, 0x61] \<and>
   paused [0x434, 0x440, 0x2E, 0x20, 0x61] \<and>
   preprocess_russian_text_soft ascii_russian [0x434, 0x440, 0x2E, 0x20, 0x61] =
     Inr [0x434, 0x440, 0x443, 0x433, 0x43E, 0x439, 0x20, 0x20, 0x61] \<and>
   preprocess_russian_text_soft ascii_russian
       [0x434, 0x440, 0x443, 0x433, 0x43E, 0x439, 0x20, 0x20, 0x61] =
     Inr [0x434, 0x440, 0x443, 0x433, 0x43E, 0x439, 0x20, 0x61]"
  by (simp add: text_simps run_simps pause_mark_def)

text \<open>
  The text "a, 21. 5": the number 5 is spelled out and each mark gets a second space
  behind it; preprocessing the result changes nothing.
\<close>

theorem soft_idempotent_on_paused_text_witness:
  "preprocess_russian_text_soft ascii_russian [0x61, 0x2C, 0x20, 0x32, 0x31, 0x2E, 0x20, 0x35] =
     Inr [0x61, 0x2C, 0x20, 0x20, 0x32, 0x31, 0x2E, 0x20, 0x20, 0x43F, 0x44F, 0x442, 0x44C] \<and>
   preprocess_russian_text_soft ascii_russian
       [0x61, 0x2C, 0x20, 0x20, 0x32, 0x31, 0x2E, 0x20, 0x20, 0x43F, 0x44F, 0x442, 0x44C] =
     Inr [0x61, 0x2C, 0x20, 0x20, 0x32, 0x31, 0x2E, 0x20, 0x20, 0x43F, 0x44F, 0x442, 0x44C]"
proof -
  let ?t = "[0x61, 0x2C, 0x20, 0x32, 0x31, 0x2E, 0x20, 0x35 :: nat]"
  let ?y = "[0x61, 0x2C, 0x20, 0x20, 0x32, 0x31, 0x2E, 0x20, 0x20, 0x43F, 0x44F, 0x442, 0x44C :: nat]"
  have ws: "collapse_ws (strip ?t) = ?t" by (simp add: text_simps)
  have len: "length ?t \<le> 500" by simp
  have p: "paused ?t" by (simp add: pause_mark_def)
  have dr: "\<not> sublist abbr_dr ?t" by (simp add: abbr_dr_def sublist_Cons_right)
  have g: "\<not> sublist abbr_g ?t" by (simp add: abbr_g_def sublist_Cons_right)
  have r: "preprocess_russian_text_soft ascii_russian ?t = Inr ?y"
    by (simp add: text_simps run_simps)
  from soft_idempotent_on_paused_text [OF ucd_ok_ascii_russian ws len p dr g]
  obtain y where "preprocess_russian_text_soft ascii_russian ?t = Inr y"
    and "preprocess_russian_text_soft ascii_russian y = Inr y" by blast
  with r show ?thesis by simp
qed

end
